theory Spec2Isabelle
  imports Complex_Main "HOL-Library.Word"
begin

unbundle bit_operations_syntax

section \<open>Board representation\<close>

text \<open>
  The engine of \<^verbatim>\<open>lc0-alphazero-top-tier-PATCHED.wasm.js\<close> keeps a position in a
  \<^verbatim>\<open>Board\<close> object: 64 squares holding piece codes (0 empty, 1..6 white pawn to king,
  7..12 black pawn to king), the side to move (1 white, -1 black), castling rights, the
  en-passant square, two move counters, the king squares and an incrementally updated
  Zobrist hash. The hash is only ever combined with \<^verbatim>\<open>^=\<close>, so it is a 32-bit pattern.
  Square 0 is a8 and square 63 is h1 (\<^verbatim>\<open>parseFEN\<close> fills the array in FEN order).
\<close>

definition EMPTY :: int where "EMPTY = 0"
definition W_PAWN :: int where "W_PAWN = 1"
definition W_KNIGHT :: int where "W_KNIGHT = 2"
definition W_BISHOP :: int where "W_BISHOP = 3"
definition W_ROOK :: int where "W_ROOK = 4"
definition W_QUEEN :: int where "W_QUEEN = 5"
definition W_KING :: int where "W_KING = 6"
definition B_PAWN :: int where "B_PAWN = 7"
definition B_KNIGHT :: int where "B_KNIGHT = 8"
definition B_BISHOP :: int where "B_BISHOP = 9"
definition B_ROOK :: int where "B_ROOK = 10"
definition B_QUEEN :: int where "B_QUEEN = 11"
definition B_KING :: int where "B_KING = 12"

record castling =
  wk :: bool
  wq :: bool
  bk :: bool
  bq :: bool

record kings =
  white :: int
  black :: int

datatype castle = WK | WQ | BK | BQ

text \<open>
  A move is an object literal \<^verbatim>\<open>{from, to, promotion?, castle?}\<close>; an absent property
  reads as \<^verbatim>\<open>undefined\<close>, here \<open>None\<close>. The castle tag is one of the strings
  \<^verbatim>\<open>'wk'\<close>, \<^verbatim>\<open>'wq'\<close>, \<^verbatim>\<open>'bk'\<close>, \<^verbatim>\<open>'bq'\<close>.
\<close>

record move =
  mfrom :: int
  mto :: int
  promotion :: "int option"
  castle :: "castle option"

record board =
  squares :: "int list"
  turn :: int
  castling :: castling
  enPassant :: int
  halfmove :: int
  fullmove :: int
  kings :: kings
  hash :: "32 word"

text \<open>
  The Zobrist keys are drawn with \<^verbatim>\<open>Math.random\<close> when the script is loaded, so they
  are a parameter of the model. \<^verbatim>\<open>makeMove\<close> reads the piece table and the side key.
\<close>

record zobrist =
  pieces :: "int \<Rightarrow> int \<Rightarrow> 32 word"
  sideToMove :: "32 word"

text \<open>The remainder operator \<^verbatim>\<open>%\<close> of the source truncates towards zero.\<close>

definition js_rem :: "int \<Rightarrow> int \<Rightarrow> int" where
  "js_rem a b = sgn a * (\<bar>a\<bar> mod \<bar>b\<bar>)"

text \<open>
  A guarded read of the square array: \<open>None\<close> is the \<^verbatim>\<open>undefined\<close> of an index
  outside the array.
\<close>

definition sq_at :: "int list \<Rightarrow> int \<Rightarrow> int option" where
  "sq_at sqs i = (if 0 \<le> i \<and> i < int (length sqs) then Some (sqs ! nat i) else None)"

text \<open>
  A write to the square array. Outside the array the source adds a property or a
  trailing element, which no later read of squares 0..63 observes.
\<close>

definition sq_set :: "int list \<Rightarrow> int \<Rightarrow> int \<Rightarrow> int list" where
  "sq_set sqs i v = (if 0 \<le> i \<and> i < int (length sqs) then sqs[nat i := v] else sqs)"

definition isWhite :: "int \<Rightarrow> bool" where
  "isWhite piece = (piece \<ge> 1 \<and> piece \<le> 6)"

definition isBlack :: "int \<Rightarrow> bool" where
  "isBlack piece = (piece \<ge> 7 \<and> piece \<le> 12)"

definition isOwnPiece :: "board \<Rightarrow> int \<Rightarrow> bool" where
  "isOwnPiece b piece = (if turn b = 1 then isWhite piece else isBlack piece)"

definition isEnemyPiece :: "board \<Rightarrow> int \<Rightarrow> bool" where
  "isEnemyPiece b piece = (if turn b = 1 then isBlack piece else isWhite piece)"

definition getPieceType :: "int \<Rightarrow> int" where
  "getPieceType piece = (if piece = 0 then 0 else js_rem (piece - 1) 6 + 1)"

text \<open>
  \<^verbatim>\<open>Board.makeMove\<close>, statement by statement. The squares of a move lie in 0..63
  (the move generator and \<^verbatim>\<open>parseUCIMove\<close> produce no others); the two reads at the
  top of the function are list lookups under that convention.
\<close>

definition makeMove :: "zobrist \<Rightarrow> board \<Rightarrow> move \<Rightarrow> board" where
  "makeMove z b m =
    (let piece = squares b ! nat (mfrom m);
         target = squares b ! nat (mto m);
         h1 = hash b XOR pieces z piece (mfrom m);
         h2 = (if target \<noteq> EMPTY then h1 XOR pieces z target (mto m) else h1);
         s1 = sq_set (squares b) (mfrom m) EMPTY;
         placed = (case promotion m of None \<Rightarrow> piece | Some p \<Rightarrow> if p = 0 then piece else p);
         s2 = sq_set s1 (mto m) placed;
         h3 = h2 XOR pieces z (s2 ! nat (mto m)) (mto m);
         k1 = (if getPieceType piece = 6
               then (if turn b = 1 then (kings b)\<lparr>white := mto m\<rparr> else (kings b)\<lparr>black := mto m\<rparr>)
               else kings b);
         s3 = (case castle m of
                 None \<Rightarrow> s2
               | Some WK \<Rightarrow> sq_set (sq_set s2 5 W_ROOK) 7 EMPTY
               | Some WQ \<Rightarrow> sq_set (sq_set s2 3 W_ROOK) 0 EMPTY
               | Some BK \<Rightarrow> sq_set (sq_set s2 61 B_ROOK) 63 EMPTY
               | Some BQ \<Rightarrow> sq_set (sq_set s2 59 B_ROOK) 56 EMPTY);
         c1 = (if getPieceType piece = 6
               then (if turn b = 1 then (castling b)\<lparr>wk := False, wq := False\<rparr>
                     else (castling b)\<lparr>bk := False, bq := False\<rparr>)
               else castling b);
         c2 = (if mfrom m = 0 \<or> mto m = 0 then c1\<lparr>wq := False\<rparr> else c1);
         c3 = (if mfrom m = 7 \<or> mto m = 7 then c2\<lparr>wk := False\<rparr> else c2);
         c4 = (if mfrom m = 56 \<or> mto m = 56 then c3\<lparr>bq := False\<rparr> else c3);
         c5 = (if mfrom m = 63 \<or> mto m = 63 then c4\<lparr>bk := False\<rparr> else c4);
         ep = (if getPieceType piece = 1 \<and> \<bar>mfrom m - mto m\<bar> = 16
               then (mfrom m + mto m) div 2 else -1);
         s4 = (if getPieceType piece = 1 \<and> mto m = ep
               then sq_set s3 (if turn b = 1 then mto m + 8 else mto m - 8) EMPTY
               else s3);
         t = turn b * (-1)
     in \<lparr> squares = s4, turn = t, castling = c5, enPassant = ep,
          halfmove = halfmove b + 1,
          fullmove = (if t = 1 then fullmove b + 1 else fullmove b),
          kings = k1, hash = h3 XOR sideToMove z \<rparr>)"

text \<open>
  One ray of the sliding-piece scan of \<^verbatim>\<open>isSquareAttacked\<close>: the \<^verbatim>\<open>while (true)\<close>
  loop steps from the square along \<open>(dr, df)\<close> until it leaves the board or meets a
  piece. The loop has no other exit, so the model is a partial function: \<open>None\<close>
  stands for a loop that never ends.
\<close>

partial_function (option) slide :: "int list \<Rightarrow> int \<Rightarrow> int \<Rightarrow> int \<Rightarrow> int \<Rightarrow> int \<Rightarrow> bool option" where
  "slide sqs by dr df rank file =
    (let rank' = rank + dr; file' = file + df in
     if rank' < 0 \<or> rank' \<ge> 8 \<or> file' < 0 \<or> file' \<ge> 8 then Some False
     else (let piece = sqs ! nat (rank' * 8 + file') in
       if piece \<noteq> EMPTY then
         Some ((by = 1 \<and> isWhite piece \<or> by = -1 \<and> isBlack piece) \<and>
               (let type = getPieceType piece;
                    isDiag = (dr \<noteq> 0 \<and> df \<noteq> 0);
                    isOrth = (dr = 0 \<or> df = 0)
                in type = 5 \<or> type = 3 \<and> isDiag \<or> type = 4 \<and> isOrth))
       else slide sqs by dr df rank' file'))"

definition knightMoves :: "int list" where
  "knightMoves = [-17, -15, -10, -6, 6, 10, 15, 17]"

definition kingMoves :: "int list" where
  "kingMoves = [-9, -8, -7, -1, 1, 7, 8, 9]"

definition directions :: "(int \<times> int) list" where
  "directions = [(1,0), (-1,0), (0,1), (0,-1), (1,1), (1,-1), (-1,1), (-1,-1)]"

text \<open>The \<^verbatim>\<open>for\<close> loop over the eight directions, leaving at the first hit.\<close>

fun slide_dirs :: "int list \<Rightarrow> int \<Rightarrow> int \<Rightarrow> (int \<times> int) list \<Rightarrow> bool option" where
  "slide_dirs sqs by sq [] = Some False"
| "slide_dirs sqs by sq ((dr, df) # ds) =
    (case slide sqs by dr df (sq div 8) (js_rem sq 8) of
       None \<Rightarrow> None
     | Some True \<Rightarrow> Some True
     | Some False \<Rightarrow> slide_dirs sqs by sq ds)"

definition isSquareAttacked :: "board \<Rightarrow> int \<Rightarrow> int \<Rightarrow> bool option" where
  "isSquareAttacked b sq by =
    (let pawnDir = (if by = 1 then -1 else 1);
         pawnLeft = sq + pawnDir * 8 - 1;
         pawnRight = sq + pawnDir * 8 + 1;
         pawn = (if by = 1 then W_PAWN else B_PAWN);
         knight = (if by = 1 then W_KNIGHT else B_KNIGHT);
         king = (if by = 1 then W_KING else B_KING)
     in if pawnLeft \<ge> 0 \<and> pawnLeft < 64 \<and> sq_at (squares b) pawnLeft = Some pawn then Some True
        else if pawnRight \<ge> 0 \<and> pawnRight < 64 \<and> sq_at (squares b) pawnRight = Some pawn then Some True
        else if list_ex (\<lambda>offset. sq + offset \<ge> 0 \<and> sq + offset < 64 \<and>
                     sq_at (squares b) (sq + offset) = Some knight) knightMoves then Some True
        else if list_ex (\<lambda>offset. sq + offset \<ge> 0 \<and> sq + offset < 64 \<and>
                     sq_at (squares b) (sq + offset) = Some king) kingMoves then Some True
        else slide_dirs (squares b) by sq directions)"

section \<open>Static exchange evaluation\<close>

record config =
  simulations :: nat
  cPuct :: real
  temperature :: real
  dirichletAlpha :: real
  dirichletEpsilon :: real
  virtualLoss :: real
  minVisitsForExpansion :: nat
  endgameSimulations :: nat
  endgamePieceThreshold :: nat
  endgameCPuct :: real
  useSEE :: bool
  seeThreshold :: real
  tacticalDepth :: nat

text \<open>The literal \<^verbatim>\<open>MCTS_CONFIG\<close> of the patched engine.\<close>

definition MCTS_CONFIG :: config where
  "MCTS_CONFIG = \<lparr> simulations = 2000, cPuct = 18 / 10, temperature = 5 / 100,
     dirichletAlpha = 3 / 10, dirichletEpsilon = 25 / 100, virtualLoss = 3,
     minVisitsForExpansion = 1, endgameSimulations = 2500, endgamePieceThreshold = 12,
     endgameCPuct = 2, useSEE = True, seeThreshold = -50, tacticalDepth = 3 \<rparr>"

definition getPieceValue :: "int \<Rightarrow> real" where
  "getPieceValue type =
    (if 0 \<le> type \<and> type \<le> 6 then [0, 100, 320, 330, 500, 900, 20000] ! nat type else 0)"

text \<open>
  \<^verbatim>\<open>SEE.evaluate\<close>. The scratch copy is \<^verbatim>\<open>board.clone()\<close> followed by
  \<^verbatim>\<open>makeMove\<close>; the attack test is called with \<^verbatim>\<open>-tempBoard.turn\<close>, the sign
  of the side that has just moved.
\<close>

definition SEE_evaluate :: "zobrist \<Rightarrow> board \<Rightarrow> move \<Rightarrow> real option" where
  "SEE_evaluate z b m =
    (let attacker = squares b ! nat (mfrom m);
         victim = squares b ! nat (mto m)
     in if victim = EMPTY then Some 0
        else (let attackerValue = getPieceValue (getPieceType attacker);
                  victimValue = getPieceValue (getPieceType victim);
                  tempBoard = makeMove z b m
              in case isSquareAttacked tempBoard (mto m) (- turn tempBoard) of
                   None \<Rightarrow> None
                 | Some attacked \<Rightarrow> Some (if attacked then victimValue - attackerValue else victimValue)))"

definition isCaptureSafe :: "config \<Rightarrow> zobrist \<Rightarrow> board \<Rightarrow> move \<Rightarrow> bool option" where
  "isCaptureSafe cfg z b m = map_option (\<lambda>see. see \<ge> seeThreshold cfg) (SEE_evaluate z b m)"

text \<open>
  The position of the repository's own regression test \<^verbatim>\<open>test-blunder-fix.js\<close>
  (FEN \<^verbatim>\<open>r1b2b1r/1ppq1p1p/p2p1np1/8/2QPP3/2N5/PPP2PPP/R3KBNR w KQ - 0 8\<close>) as
  \<^verbatim>\<open>parseFEN\<close> leaves it in a fresh board, and the capture \<^verbatim>\<open>c4f7\<close> that the test
  calls the blunder: the white queen takes the pawn on f7, which the black queen on d7
  defends.
\<close>

definition blunder_squares :: "int list" where
  "blunder_squares =
    [10, 0, 9, 0, 0, 9, 0, 10,
      0, 7, 7, 11, 0, 7, 0, 7,
      7, 0, 0, 7, 0, 8, 7, 0,
      0, 0, 0, 0, 0, 0, 0, 0,
      0, 0, 5, 1, 1, 0, 0, 0,
      0, 0, 2, 0, 0, 0, 0, 0,
      1, 1, 1, 0, 0, 1, 1, 1,
      4, 0, 0, 0, 6, 3, 2, 4]"

definition blunder_board :: "32 word \<Rightarrow> board" where
  "blunder_board h = \<lparr> squares = blunder_squares, turn = 1,
     castling = \<lparr> wk = True, wq = True, bk = False, bq = False \<rparr>,
     enPassant = -1, halfmove = 0, fullmove = 1,
     kings = \<lparr> white = 60, black = -1 \<rparr>, hash = h \<rparr>"

definition Qxf7 :: move where
  "Qxf7 = \<lparr> mfrom = 34, mto = 13, promotion = None, castle = None \<rparr>"

section \<open>The search tree\<close>

text \<open>
  \<^verbatim>\<open>MCTSNode\<close> objects refer to each other (\<^verbatim>\<open>parent\<close>, \<^verbatim>\<open>children\<close>) and to
  \<^verbatim>\<open>Board\<close> objects, and are updated in place. The model keeps both kinds of object in
  stores indexed by address; \<^verbatim>\<open>new\<close> takes the next free address. A node holds the
  address of its board, not a copy: the constructor stores the argument it is given.
  Numbers are real numbers; \<^verbatim>\<open>null\<close> is \<open>None\<close>.
\<close>

record node =
  board :: nat
  parent :: "nat option"
  move :: "move option"
  prior :: real
  children :: "nat list"
  visitCount :: nat
  totalValue :: real
  virtualLoss :: nat
  isExpanded :: bool
  isTerminal :: bool
  terminalValue :: real

definition MCTSNode :: "nat \<Rightarrow> nat option \<Rightarrow> move option \<Rightarrow> real \<Rightarrow> node" where
  "MCTSNode b par mv p = \<lparr> board = b, parent = par, move = mv, prior = p, children = [],
     visitCount = 0, totalValue = 0, virtualLoss = 0, isExpanded = False,
     isTerminal = False, terminalValue = 0 \<rparr>"

definition MATE_SCORE :: real where "MATE_SCORE = 50000"

definition getQ :: "config \<Rightarrow> node \<Rightarrow> real" where
  "getQ cfg nd =
    (if visitCount nd = 0 then 0
     else (totalValue nd - real (node.virtualLoss nd) * config.virtualLoss cfg)
          / (real (visitCount nd) + real (node.virtualLoss nd)))"

definition getU :: "config \<Rightarrow> (nat \<Rightarrow> board) \<Rightarrow> node \<Rightarrow> nat \<Rightarrow> real" where
  "getU cfg bs nd parentVisits =
    (let totalPieces = length (filter (\<lambda>p. p \<noteq> EMPTY) (squares (bs (board nd))));
         isEndgame = (totalPieces < endgamePieceThreshold cfg);
         c = (if isEndgame then endgameCPuct cfg else cPuct cfg)
     in c * prior nd * sqrt (real parentVisits) / (1 + real (visitCount nd)))"

definition getPUCT :: "config \<Rightarrow> (nat \<Rightarrow> board) \<Rightarrow> node \<Rightarrow> nat \<Rightarrow> real" where
  "getPUCT cfg bs nd parentVisits = getQ cfg nd + getU cfg bs nd parentVisits"

text \<open>
  The loop of \<^verbatim>\<open>selectChild\<close>. \<^verbatim>\<open>bestValue\<close> starts at \<^verbatim>\<open>-Infinity\<close>, which is
  \<open>None\<close> here: every real number is greater.
\<close>

fun selectChild_loop ::
  "config \<Rightarrow> (nat \<Rightarrow> board) \<Rightarrow> (nat \<Rightarrow> node) \<Rightarrow> nat \<Rightarrow> nat list \<Rightarrow> nat option \<Rightarrow> real option \<Rightarrow> nat option" where
  "selectChild_loop cfg bs h pv [] bestChild bestValue = bestChild"
| "selectChild_loop cfg bs h pv (child # rest) bestChild bestValue =
    (let value = getPUCT cfg bs (h child) pv in
     if (case bestValue of None \<Rightarrow> True | Some bv \<Rightarrow> value > bv)
     then selectChild_loop cfg bs h pv rest (Some child) (Some value)
     else selectChild_loop cfg bs h pv rest bestChild bestValue)"

definition selectChild :: "config \<Rightarrow> (nat \<Rightarrow> board) \<Rightarrow> (nat \<Rightarrow> node) \<Rightarrow> nat \<Rightarrow> nat option" where
  "selectChild cfg bs h n =
    selectChild_loop cfg bs h (visitCount (h n)) (children (h n)) None None"

text \<open>
  \<^verbatim>\<open>backpropagate\<close> calls itself on the parent until a node has none. Nothing in
  the function bounds the walk, so it is a partial function.
\<close>

partial_function (option) backpropagate :: "(nat \<Rightarrow> node) \<Rightarrow> nat \<Rightarrow> real \<Rightarrow> (nat \<Rightarrow> node) option" where
  "backpropagate h n v =
    (let h' = h(n := (h n)\<lparr> visitCount := visitCount (h n) + 1,
                           totalValue := totalValue (h n) + v \<rparr>)
     in case parent (h' n) of
          None \<Rightarrow> Some h'
        | Some p \<Rightarrow> backpropagate h' p (- v))"

text \<open>
  The statistics update that one call of \<^verbatim>\<open>backpropagate\<close> applies to its node.
\<close>

definition bump :: "node \<Rightarrow> real \<Rightarrow> node" where
  "bump nd v = nd\<lparr> visitCount := visitCount nd + 1, totalValue := totalValue nd + v \<rparr>"

text \<open>
  \<open>path_up h ps\<close>: the list \<open>ps\<close> starts at a node and follows the \<^verbatim>\<open>parent\<close>
  references up to a node that has none. For a path of k edges from the root down to a
  node, \<open>ps\<close> is that path read upwards and has k + 1 entries.
\<close>

fun path_up :: "(nat \<Rightarrow> node) \<Rightarrow> nat list \<Rightarrow> bool" where
  "path_up h [] = False"
| "path_up h [n] = (parent (h n) = None)"
| "path_up h (n # p # ps) = (parent (h n) = Some p \<and> path_up h (p # ps))"

text \<open>The greedy branch of \<^verbatim>\<open>getBestMove\<close>: the loop that keeps the most visited child.\<close>

fun mostVisited :: "(nat \<Rightarrow> node) \<Rightarrow> nat list \<Rightarrow> nat \<Rightarrow> nat" where
  "mostVisited h [] bestChild = bestChild"
| "mostVisited h (child # rest) bestChild =
    mostVisited h rest (if visitCount (h child) > visitCount (h bestChild) then child else bestChild)"

text \<open>
  The sampling branch: \<^verbatim>\<open>rand\<close> is decreased by one weight after the other and the
  first child at which it is no longer positive is returned, the last child otherwise.
\<close>

fun sampleChild :: "nat list \<Rightarrow> real list \<Rightarrow> real \<Rightarrow> nat option" where
  "sampleChild [] ws rand = None"
| "sampleChild (child # rest) ws rand =
    (let rand' = rand - hd ws in
     if rand' \<le> 0 then Some child else sampleChild rest (tl ws) rand')"

text \<open>
  \<^verbatim>\<open>getBestMove(temperature)\<close>; \<open>r\<close> is the value \<^verbatim>\<open>Math.random()\<close> returns in the
  sampling branch. \<^verbatim>\<open>Math.pow\<close> on a visit count and a positive exponent is \<open>powr\<close>.
\<close>

definition getBestMove :: "(nat \<Rightarrow> node) \<Rightarrow> nat \<Rightarrow> real \<Rightarrow> real \<Rightarrow> move option" where
  "getBestMove h n temp r =
    (let cs = children (h n) in
     if cs = [] then None
     else if temp = 0 then move (h (mostVisited h cs (hd cs)))
     else (let visits = map (\<lambda>c. real (visitCount (h c)) powr (1 / temp)) cs;
               visitSum = foldl (+) 0 visits
           in case sampleChild cs visits (r * visitSum) of
                Some c \<Rightarrow> move (h c)
              | None \<Rightarrow> move (h (last cs))))"

section \<open>The search engine\<close>

text \<open>
  The reals of the model have no \<^verbatim>\<open>NaN\<close>. Where the source computes one and goes on
  with it, the model stops with \<open>NotANumber\<close>. \<open>TypeError\<close> is the exception of a
  property read on \<^verbatim>\<open>null\<close>.
\<close>

datatype error = TypeError | NotANumber

text \<open>
  The move generator, the policy and the static evaluator are the engine's collaborators:
  pure functions of the board they are given. The search below holds for whatever they
  compute. The policy returns one prior for each move it is given.
\<close>

record env =
  zob :: zobrist
  generate :: "board \<Rightarrow> move list"
  getMovePolicy :: "board \<Rightarrow> move list \<Rightarrow> real list"
  evaluate :: "board \<Rightarrow> real"

text \<open>
  \<^verbatim>\<open>MCTSEngine\<close> with the two object stores. \<open>stopTime\<close> is \<open>None\<close> when the sum
  \<^verbatim>\<open>startTime + timeLimit\<close> is not a number. The \<^verbatim>\<open>onInfo\<close> callback only prints and
  is left out.
\<close>

record engine =
  root :: "nat option"
  nodes :: nat
  startTime :: int
  stopTime :: "int option"
  stopSearch :: bool
  heap :: "nat \<Rightarrow> node"
  nxt :: nat
  boards :: "nat \<Rightarrow> board"
  bnxt :: nat

definition normalizeValue :: "real \<Rightarrow> real" where
  "normalizeValue score = tanh (score / 1000)"

definition evaluatePosition :: "env \<Rightarrow> board \<Rightarrow> real" where
  "evaluatePosition env b = normalizeValue (evaluate env b)"

text \<open>
  The second loop of \<^verbatim>\<open>addDirichletNoise\<close>: child by child, the prior is blended with
  the normalised noise sample of the same index.
\<close>

fun noise_blend :: "real \<Rightarrow> real \<Rightarrow> nat list \<Rightarrow> real list \<Rightarrow> (nat \<Rightarrow> node) \<Rightarrow> (nat \<Rightarrow> node)" where
  "noise_blend epsilon noiseSum [] noise h = h"
| "noise_blend epsilon noiseSum (c # cs) noise h =
    (let normalizedNoise = hd noise / noiseSum
     in noise_blend epsilon noiseSum cs (tl noise)
          (h(c := (h c)\<lparr> prior := (1 - epsilon) * prior (h c) + epsilon * normalizedNoise \<rparr>)))"

text \<open>
  \<^verbatim>\<open>addDirichletNoise\<close>; \<open>rnd i\<close> is the \<open>i\<close>-th value \<^verbatim>\<open>Math.random()\<close> returns, a
  number in [0, 1). When every sample is 0 the sum is 0 and each \<^verbatim>\<open>noise[i] / sum\<close> is
  0 / 0: all priors become \<^verbatim>\<open>NaN\<close>.
\<close>

definition addDirichletNoise :: "config \<Rightarrow> (nat \<Rightarrow> real) \<Rightarrow> (nat \<Rightarrow> node) \<Rightarrow> nat \<Rightarrow> error + (nat \<Rightarrow> node)" where
  "addDirichletNoise cfg rnd h n =
    (let cs = children (h n) in
     if cs = [] then Inr h
     else (let alpha = dirichletAlpha cfg;
               epsilon = dirichletEpsilon cfg;
               noise = map (\<lambda>i. rnd i powr (1 / alpha)) [0 ..< length cs];
               noiseSum = foldl (+) 0 noise
           in if noiseSum = 0 then Inl NotANumber
              else Inr (noise_blend epsilon noiseSum cs noise h)))"

text \<open>
  The loop of \<^verbatim>\<open>expand\<close>: one child per move, each on a fresh copy of the node's
  board with the move made, appended to the node's children.
\<close>

fun expand_loop :: "env \<Rightarrow> nat \<Rightarrow> real list \<Rightarrow> nat \<Rightarrow> move list \<Rightarrow> engine \<Rightarrow> engine" where
  "expand_loop env n priors i [] e = e"
| "expand_loop env n priors i (m # ms) e =
    (let newBoard = makeMove (zob env) (boards e (board (heap e n))) m;
         bref = bnxt e;
         cid = nxt e;
         h1 = (heap e)(cid := MCTSNode bref (Some n) (Some m) (priors ! i));
         h2 = h1(n := (h1 n)\<lparr> children := children (h1 n) @ [cid] \<rparr>)
     in expand_loop env n priors (Suc i) ms
          (e\<lparr> boards := (boards e)(bref := newBoard), bnxt := bref + 1,
              heap := h2, nxt := cid + 1 \<rparr>))"

definition expand :: "env \<Rightarrow> engine \<Rightarrow> nat \<Rightarrow> engine" where
  "expand env e n =
    (if isExpanded (heap e n) then e
     else (let moves = generate env (boards e (board (heap e n))) in
       if moves = [] then
         e\<lparr> heap := (heap e)(n := (heap e n)\<lparr> isTerminal := True, terminalValue := - MATE_SCORE \<rparr>) \<rparr>
       else (let priors = getMovePolicy env (boards e (board (heap e n))) moves;
                 e' = expand_loop env n priors 0 moves e
             in e'\<lparr> heap := (heap e')(n := (heap e' n)\<lparr> isExpanded := True \<rparr>) \<rparr>)))"

text \<open>
  The selection loop of \<^verbatim>\<open>runSimulation\<close>. The inner \<open>None\<close> is the \<^verbatim>\<open>null\<close> that
  \<^verbatim>\<open>selectChild\<close> can return; the outer one a descent that never ends.
\<close>

partial_function (option) selectLeaf :: "config \<Rightarrow> (nat \<Rightarrow> board) \<Rightarrow> (nat \<Rightarrow> node) \<Rightarrow> nat \<Rightarrow> nat option option" where
  "selectLeaf cfg bs h n =
    (if isExpanded (h n) \<and> children (h n) \<noteq> [] then
       (case selectChild cfg bs h n of
          None \<Rightarrow> Some None
        | Some c \<Rightarrow> selectLeaf cfg bs h c)
     else Some (Some n))"

definition backpropagate_from :: "engine \<Rightarrow> nat \<Rightarrow> real \<Rightarrow> (error + engine) option" where
  "backpropagate_from e n v = map_option (\<lambda>h. Inr (e\<lparr> heap := h \<rparr>)) (backpropagate (heap e) n v)"

definition runSimulation :: "config \<Rightarrow> env \<Rightarrow> engine \<Rightarrow> (error + engine) option" where
  "runSimulation cfg env e =
    (case root e of
       None \<Rightarrow> Some (Inl TypeError)
     | Some r \<Rightarrow>
        (case selectLeaf cfg (boards e) (heap e) r of
           None \<Rightarrow> None
         | Some None \<Rightarrow> Some (Inr e)
         | Some (Some node) \<Rightarrow>
            (let e1 = e\<lparr> nodes := nodes e + 1 \<rparr> in
             if isTerminal (heap e1 node) then
               backpropagate_from e1 node (terminalValue (heap e1 node))
             else if visitCount (heap e1 node) \<ge> minVisitsForExpansion cfg \<and> \<not> isExpanded (heap e1 node) then
               (let e2 = expand env e1 node in
                if isTerminal (heap e2 node) then
                  backpropagate_from e2 node (terminalValue (heap e2 node))
                else
                  (let node' = (if children (heap e2 node) \<noteq> [] then hd (children (heap e2 node)) else node);
                       value = evaluatePosition env (boards e2 (board (heap e2 node')))
                   in backpropagate_from e2 node' value))
             else
               (let value = evaluatePosition env (boards e1 (board (heap e1 node)))
                in backpropagate_from e1 node value))))"

text \<open>
  The root step of \<^verbatim>\<open>search\<close>: the present root is kept when there is one and the hash
  stored in its board equals the hash of the board passed in; otherwise a new node for
  that board becomes the root. The pair is the root's address and the engine.
\<close>

definition initRoot :: "engine \<Rightarrow> nat \<Rightarrow> nat \<times> engine" where
  "initRoot e bref =
    (let fresh = (nxt e, e\<lparr> heap := (heap e)(nxt e := MCTSNode bref None None 0),
                            nxt := nxt e + 1, root := Some (nxt e) \<rparr>)
     in case root e of
          None \<Rightarrow> fresh
        | Some r \<Rightarrow> if hash (boards e (board (heap e r))) \<noteq> hash (boards e bref) then fresh
                    else (r, e))"

text \<open>
  The simulation loop of \<^verbatim>\<open>search\<close>. \<open>clock (Suc i)\<close> is what \<^verbatim>\<open>Date.now()\<close>
  returns at the top of iteration \<open>i\<close>; a comparison with a \<open>stopTime\<close> that is not a
  number is false.
\<close>

function simLoop :: "config \<Rightarrow> env \<Rightarrow> (nat \<Rightarrow> int) \<Rightarrow> nat \<Rightarrow> nat \<Rightarrow> engine \<Rightarrow> (error + engine) option" where
  "simLoop cfg env clock sims i e =
    (if i < sims then
       (if stopSearch e \<or> (case stopTime e of None \<Rightarrow> False | Some t \<Rightarrow> clock (Suc i) \<ge> t)
        then Some (Inr e)
        else (case runSimulation cfg env e of
                None \<Rightarrow> None
              | Some (Inl err) \<Rightarrow> Some (Inl err)
              | Some (Inr e') \<Rightarrow> simLoop cfg env clock sims (Suc i) e'))
     else Some (Inr e))"
  by pat_completeness auto
termination
  by (relation "measure (\<lambda>(cfg, env, clock, sims, i, e). sims - i)") auto

declare simLoop.simps [simp del]

text \<open>
  \<^verbatim>\<open>search(board, simulations, timeLimit)\<close>. An argument that is not supplied is
  \<^verbatim>\<open>undefined\<close>, here \<open>None\<close>: \<^verbatim>\<open>i < undefined\<close> is false, and a deadline computed
  from it is not a number. \<open>clock 0\<close> is the first reading of \<^verbatim>\<open>Date.now()\<close>; \<open>rnd\<close>
  lists the values of \<^verbatim>\<open>Math.random()\<close> in call order, first the noise samples, then
  the draw of the final selection. The result is the returned move, \<open>None\<close> for
  \<^verbatim>\<open>null\<close>, and the engine afterwards.
\<close>

definition search ::
  "config \<Rightarrow> env \<Rightarrow> (nat \<Rightarrow> int) \<Rightarrow> (nat \<Rightarrow> real) \<Rightarrow> engine \<Rightarrow> nat \<Rightarrow> nat option \<Rightarrow> int option
    \<Rightarrow> (error + move option \<times> engine) option" where
  "search cfg env clock rnd e bref simulations0 timeLimit =
    (let e0 = e\<lparr> startTime := clock 0, stopTime := map_option (\<lambda>t. clock 0 + t) timeLimit,
                 stopSearch := False, nodes := 0 \<rparr>;
         totalPieces = length (filter (\<lambda>p. p \<noteq> EMPTY) (squares (boards e0 bref)));
         isEndgame = (totalPieces < endgamePieceThreshold cfg);
         sims = (if isEndgame then Some (endgameSimulations cfg) else simulations0);
         (r, e1) = initRoot e0 bref;
         e2 = expand env e1 r
     in if children (heap e2 r) = [] then Some (Inr (None, e2))
        else (case addDirichletNoise cfg rnd (heap e2) r of
                Inl err \<Rightarrow> Some (Inl err)
              | Inr h3 \<Rightarrow>
                 (case simLoop cfg env clock (case sims of None \<Rightarrow> 0 | Some k \<Rightarrow> k) 0 (e2\<lparr> heap := h3 \<rparr>) of
                    None \<Rightarrow> None
                  | Some (Inl err) \<Rightarrow> Some (Inl err)
                  | Some (Inr e4) \<Rightarrow>
                     Some (Inr (getBestMove (heap e4) r (temperature cfg)
                                  (rnd (length (children (heap e2 r)))), e4)))))"

section \<open>Simulation paths and tree shape\<close>

text \<open>
  The nodes the selection loop of \<^verbatim>\<open>runSimulation\<close> passes, recorded from the
  selected leaf back to the node the descent started at. The list is empty when
  \<^verbatim>\<open>selectChild\<close> returned \<^verbatim>\<open>null\<close> on the way.
\<close>

partial_function (option) selectPath :: "config \<Rightarrow> (nat \<Rightarrow> board) \<Rightarrow> (nat \<Rightarrow> node) \<Rightarrow> nat \<Rightarrow> nat list option" where
  "selectPath cfg bs h n =
    (if isExpanded (h n) \<and> children (h n) \<noteq> [] then
       (case selectChild cfg bs h n of
          None \<Rightarrow> Some []
        | Some c \<Rightarrow> Option.bind (selectPath cfg bs h c) (\<lambda>ps. if ps = [] then Some [] else Some (ps @ [n])))
     else Some [n])"

text \<open>
  The path of one simulation, leaf end first: the selection path from the root, and in
  front of it the first child of the selected leaf when this simulation expands the leaf
  into children (\<^verbatim>\<open>node = node.children[0]\<close>).
\<close>

definition simulationPath :: "config \<Rightarrow> env \<Rightarrow> engine \<Rightarrow> nat list option" where
  "simulationPath cfg env e =
    (case root e of
       None \<Rightarrow> Some []
     | Some r \<Rightarrow>
        Option.bind (selectPath cfg (boards e) (heap e) r)
          (\<lambda>ps. case ps of
                  [] \<Rightarrow> Some []
                | leaf # up \<Rightarrow>
                   if \<not> isTerminal (heap e leaf) \<and> minVisitsForExpansion cfg \<le> visitCount (heap e leaf)
                      \<and> \<not> isExpanded (heap e leaf)
                      \<and> generate env (boards e (board (heap e leaf))) \<noteq> []
                   then Some (hd (children (heap (expand env e leaf) leaf)) # ps)
                   else Some ps))"

text \<open>
  \<open>k\<close> successive simulations on an engine: the paths they took, in order, and the
  engine after the last one.
\<close>

fun simulate :: "config \<Rightarrow> env \<Rightarrow> nat \<Rightarrow> engine \<Rightarrow> (nat list list \<times> engine) option" where
  "simulate cfg env 0 e = Some ([], e)"
| "simulate cfg env (Suc k) e =
    (case simulate cfg env k e of
       None \<Rightarrow> None
     | Some (ps, e') \<Rightarrow>
        (case (simulationPath cfg env e', runSimulation cfg env e') of
           (Some p, Some (Inr e'')) \<Rightarrow> Some (ps @ [p], e'')
         | _ \<Rightarrow> None))"

text \<open>
  The shape every tree built by the engine has: the root is allocated and has no parent,
  and the children of an allocated node are allocated after it and name it as their
  parent.
\<close>

definition wf_tree :: "engine \<Rightarrow> bool" where
  "wf_tree e \<longleftrightarrow>
     (\<forall>r. root e = Some r \<longrightarrow> r < nxt e \<and> parent (heap e r) = None) \<and>
     (\<forall>n < nxt e. \<forall>c \<in> set (children (heap e n)). n < c \<and> c < nxt e \<and> parent (heap e c) = Some n)"

text \<open>
  \<open>subtree h r\<close>: the nodes reached from \<open>r\<close> by following \<^verbatim>\<open>children\<close> references,
  \<open>r\<close> itself included.
\<close>

inductive_set subtree :: "(nat \<Rightarrow> node) \<Rightarrow> nat \<Rightarrow> nat set" for h :: "nat \<Rightarrow> node" and r :: nat where
  top: "r \<in> subtree h r"
| down: "n \<in> subtree h r \<Longrightarrow> c \<in> set (children (h n)) \<Longrightarrow> c \<in> subtree h r"

text \<open>
  \<open>carried_over e e'\<close>: what was allocated in \<open>e\<close> is still there in \<open>e'\<close>. The boards
  are unchanged. Every node keeps its board, its parent and its move and has at least
  its visit count; a node that was expanded is still expanded and has the same children;
  any other node has its children in the same order, followed only by nodes allocated
  since.
\<close>

definition carried_over :: "engine \<Rightarrow> engine \<Rightarrow> bool" where
  "carried_over e e' \<longleftrightarrow>
     nxt e \<le> nxt e' \<and> bnxt e \<le> bnxt e' \<and>
     (\<forall>b < bnxt e. boards e' b = boards e b) \<and>
     (\<forall>a < nxt e.
        board (heap e' a) = board (heap e a) \<and>
        parent (heap e' a) = parent (heap e a) \<and>
        move (heap e' a) = move (heap e a) \<and>
        visitCount (heap e a) \<le> visitCount (heap e' a) \<and>
        (isExpanded (heap e a) \<longrightarrow>
           isExpanded (heap e' a) \<and> children (heap e' a) = children (heap e a)) \<and>
        take (length (children (heap e a))) (children (heap e' a)) = children (heap e a) \<and>
        (\<forall>c \<in> set (drop (length (children (heap e a))) (children (heap e' a))). nxt e \<le> c))"

section \<open>Concrete positions and trees\<close>

definition plain_move :: "int \<Rightarrow> int \<Rightarrow> move" where
  "plain_move f t = \<lparr> mfrom = f, mto = t, promotion = None, castle = None \<rparr>"

text \<open>
  A root (address 0) with three children in generation order, visited 3, 7 and 7 times.
\<close>

definition tie_heap :: "nat \<Rightarrow> node" where
  "tie_heap =
    (\<lambda>a. MCTSNode 0 None None 0)
    (0 := (MCTSNode 0 None None 0)\<lparr> children := [1, 2, 3], visitCount := 17, isExpanded := True \<rparr>,
     1 := (MCTSNode 1 (Some 0) (Some (plain_move 52 36)) (1 / 3))\<lparr> visitCount := 3 \<rparr>,
     2 := (MCTSNode 2 (Some 0) (Some (plain_move 51 35)) (1 / 3))\<lparr> visitCount := 7 \<rparr>,
     3 := (MCTSNode 3 (Some 0) (Some (plain_move 62 45)) (1 / 3))\<lparr> visitCount := 7 \<rparr>)"

text \<open>
  The score of section 4.1 as the specification words it, with the one configured
  exploration constant \<^verbatim>\<open>cPuct\<close>, for comparison with \<open>getPUCT\<close>.
\<close>

definition claimed_Score :: "config \<Rightarrow> node \<Rightarrow> nat \<Rightarrow> real" where
  "claimed_Score cfg nd parentVisits =
    (if visitCount nd = 0 then 0
     else (totalValue nd - real (node.virtualLoss nd) * config.virtualLoss cfg)
          / (real (visitCount nd) + real (node.virtualLoss nd)))
    + cPuct cfg * prior nd * sqrt (real parentVisits) / (1 + real (visitCount nd))"

definition test_keys :: zobrist where
  "test_keys = \<lparr> pieces = (\<lambda>p s. word_of_int (p * 64 + s + 1)), sideToMove = 1 \<rparr>"

text \<open>
  A position with twelve pieces, white to move: rook a1, queen d1, king e1, pawns a2 b2
  c2 against rook a8, queen d8, king e8, pawns a7 b7 c7. The pawn move a2-a3 keeps twelve
  pieces on the board, the capture Qd1xd8 leaves eleven.
\<close>

definition phase_squares :: "int list" where
  "phase_squares =
    [10, 0, 0, 11, 12, 0, 0, 0,
      7, 7, 7, 0, 0, 0, 0, 0,
      0, 0, 0, 0, 0, 0, 0, 0,
      0, 0, 0, 0, 0, 0, 0, 0,
      0, 0, 0, 0, 0, 0, 0, 0,
      0, 0, 0, 0, 0, 0, 0, 0,
      1, 1, 1, 0, 0, 0, 0, 0,
      4, 0, 0, 5, 6, 0, 0, 0]"

definition phase_board :: board where
  "phase_board = \<lparr> squares = phase_squares, turn = 1,
     castling = \<lparr> wk = False, wq = False, bk = False, bq = False \<rparr>,
     enPassant = -1, halfmove = 0, fullmove = 1,
     kings = \<lparr> white = 60, black = 4 \<rparr>, hash = 0 \<rparr>"

definition phase_boards :: "nat \<Rightarrow> board" where
  "phase_boards =
    (\<lambda>a. phase_board)
    (1 := makeMove test_keys phase_board (plain_move 48 40),
     2 := makeMove test_keys phase_board (plain_move 59 3))"

text \<open>
  The root (address 0) after four simulations, two through each of the two children
  shown; the children carry the priors 0.51 and 0.49 and the boards after a2-a3 and Qxd8.
\<close>

definition phase_heap :: "nat \<Rightarrow> node" where
  "phase_heap =
    (\<lambda>a. MCTSNode 0 None None 0)
    (0 := (MCTSNode 0 None None 0)\<lparr> children := [1, 2], visitCount := 4, isExpanded := True \<rparr>,
     1 := (MCTSNode 1 (Some 0) (Some (plain_move 48 40)) (51 / 100))\<lparr> visitCount := 2 \<rparr>,
     2 := (MCTSNode 2 (Some 0) (Some (plain_move 59 3)) (49 / 100))\<lparr> visitCount := 2 \<rparr>)"

text \<open>
  White queen e2 and king d1 against the black king on e8, white to move. The queen can
  take on e8; in the position after that capture the side to move has no piece left and
  the move generator, whose loop skips every square not holding an own piece, returns
  the empty list.
\<close>

definition kq_squares :: "int list" where
  "kq_squares =
    [0, 0, 0, 0, 12, 0, 0, 0,
     0, 0, 0, 0, 0, 0, 0, 0,
     0, 0, 0, 0, 0, 0, 0, 0,
     0, 0, 0, 0, 0, 0, 0, 0,
     0, 0, 0, 0, 0, 0, 0, 0,
     0, 0, 0, 0, 0, 0, 0, 0,
     0, 0, 0, 0, 5, 0, 0, 0,
     0, 0, 0, 6, 0, 0, 0, 0]"

definition kq_board :: board where
  "kq_board = \<lparr> squares = kq_squares, turn = 1,
     castling = \<lparr> wk = False, wq = False, bk = False, bq = False \<rparr>,
     enPassant = -1, halfmove = 0, fullmove = 1,
     kings = \<lparr> white = 59, black = 4 \<rparr>, hash = 0 \<rparr>"

definition kq_after :: board where
  "kq_after = makeMove test_keys kq_board (plain_move 52 4)"

text \<open>
  Collaborators for the examples. The generator offers the capture Qe2xe8 in
  \<open>kq_board\<close>, the moves a2-a3 and Qd1xd8 in \<open>phase_board\<close>, and nothing elsewhere;
  the policy is uniform and the evaluator scores every position 0.
\<close>

definition demo_env :: env where
  "demo_env = \<lparr> zob = test_keys,
     generate = (\<lambda>b. if squares b = kq_squares then [plain_move 52 4]
                     else if squares b = phase_squares then [plain_move 48 40, plain_move 59 3]
                     else []),
     getMovePolicy = (\<lambda>b ms. map (\<lambda>m. 1 / real (length ms)) ms),
     evaluate = (\<lambda>b. 0) \<rparr>"

text \<open>
  An engine as its constructor leaves it, with the caller's board object at board
  address 0.
\<close>

definition new_engine :: "board \<Rightarrow> engine" where
  "new_engine b = \<lparr> root = None, nodes = 0, startTime = 0, stopTime = None, stopSearch = False,
     heap = (\<lambda>a. MCTSNode 0 None None 0), nxt = 0, boards = (\<lambda>a. b), bnxt = 1 \<rparr>"

text \<open>A clock that lets two iterations of the simulation loop pass before the deadline.\<close>

definition two_ticks :: "nat \<Rightarrow> int" where
  "two_ticks i = (if i < 3 then int i else 5000)"

text \<open>
  The tree over \<open>kq_board\<close>: the root at address 0 and its only child at address 1,
  both visited \<open>vc\<close> times, the child with accumulated value \<open>tv\<close>.
\<close>

definition kq_state :: "nat \<Rightarrow> int option \<Rightarrow> (nat \<Rightarrow> board) \<Rightarrow> nat \<Rightarrow> real \<Rightarrow> bool \<Rightarrow> engine" where
  "kq_state k stop bs vc tv terminal =
    \<lparr> root = Some 0, nodes = k, startTime = 0, stopTime = stop, stopSearch = False,
      heap = (\<lambda>a. MCTSNode 0 None None 0)
        (0 := (MCTSNode 0 None None 0)\<lparr> children := [1], visitCount := vc, totalValue := - tv,
                                          isExpanded := True \<rparr>,
         1 := (MCTSNode 1 (Some 0) (Some (plain_move 52 4)) 1)\<lparr> visitCount := vc, totalValue := tv,
                  isTerminal := terminal, terminalValue := (if terminal then - 50000 else 0) \<rparr>),
      nxt = 2, boards = bs, bnxt = 2 \<rparr>"

text \<open>
  The engine of \<open>phase_heap\<close>, asked to search the position after a2-a3, which is the
  position of the root's first child; the caller passes it in a board object of its own
  (address 3).
\<close>

definition phase_engine :: engine where
  "phase_engine = \<lparr> root = Some 0, nodes = 4, startTime = 0, stopTime = Some 1000, stopSearch = False,
     heap = phase_heap, nxt = 3, boards = phase_boards(3 := phase_boards 1), bnxt = 4 \<rparr>"

text \<open>
  The same engine asked to search the position of its root again; the caller passes that
  position in a board object of its own (address 3).
\<close>

definition phase_again :: engine where
  "phase_again = phase_engine\<lparr> boards := (boards phase_engine)(3 := phase_board) \<rparr>"

text \<open>
  Two bare kings, e1 and e8, white to move, and collaborators whose generator offers the
  side to move one king step straight ahead, so that every position has one successor.
\<close>

definition kk_squares :: "int list" where
  "kk_squares =
    [0, 0, 0, 0, 12, 0, 0, 0,
     0, 0, 0, 0, 0, 0, 0, 0,
     0, 0, 0, 0, 0, 0, 0, 0,
     0, 0, 0, 0, 0, 0, 0, 0,
     0, 0, 0, 0, 0, 0, 0, 0,
     0, 0, 0, 0, 0, 0, 0, 0,
     0, 0, 0, 0, 0, 0, 0, 0,
     0, 0, 0, 0, 6, 0, 0, 0]"

definition kk_board :: board where
  "kk_board = \<lparr> squares = kk_squares, turn = 1,
     castling = \<lparr> wk = False, wq = False, bk = False, bq = False \<rparr>,
     enPassant = -1, halfmove = 0, fullmove = 1,
     kings = \<lparr> white = 60, black = 4 \<rparr>, hash = 0 \<rparr>"

definition march_env :: env where
  "march_env = \<lparr> zob = test_keys,
     generate = (\<lambda>b. if turn b = 1 then [plain_move (white (kings b)) (white (kings b) - 8)]
                     else [plain_move (black (kings b)) (black (kings b) + 8)]),
     getMovePolicy = (\<lambda>b ms. map (\<lambda>m. 1 / real (length ms)) ms),
     evaluate = (\<lambda>b. 0) \<rparr>"

text \<open>
  The tree over \<open>kk_board\<close> once the root (address 0) has been expanded into its one
  child (address 1), both visited \<open>vc\<close> times.
\<close>

definition march_state :: "nat \<Rightarrow> nat \<Rightarrow> engine" where
  "march_state k vc =
    \<lparr> root = Some 0, nodes = k, startTime = 0, stopTime = Some 1000, stopSearch = False,
      heap = (\<lambda>a. MCTSNode 0 None None 0)
        (0 := (MCTSNode 0 None None 0)\<lparr> children := [1], visitCount := vc, isExpanded := True \<rparr>,
         1 := (MCTSNode 1 (Some 0) (Some (plain_move 60 52)) 1)\<lparr> visitCount := vc \<rparr>),
      nxt = 2,
      boards = (\<lambda>a. kk_board)(1 := makeMove test_keys kk_board (plain_move 60 52)),
      bnxt = 2 \<rparr>"

section \<open>Evaluation rules\<close>

lemmas PIECES_defs = EMPTY_def W_PAWN_def W_KNIGHT_def W_BISHOP_def W_ROOK_def W_QUEEN_def
  W_KING_def B_PAWN_def B_KNIGHT_def B_BISHOP_def B_ROOK_def B_QUEEN_def B_KING_def

section \<open>Capture safety\<close>

text \<open>
  C5. On the position of \<^verbatim>\<open>test-blunder-fix.js\<close> the queen capture on f7 lands on a
  square that the enemy attacks after the move, so the exchange estimate described for the
  filter is 100 - 900 = -800 and the capture is unsafe. \<^verbatim>\<open>SEE.evaluate\<close> asks instead
  whether the side that has just moved attacks the square: it returns 100 and
  \<^verbatim>\<open>isCaptureSafe\<close> accepts the capture.
\<close>

theorem SEE_blunder_position:
  "SEE_evaluate z (blunder_board h) Qxf7 = Some 100 \<and>
   isCaptureSafe MCTS_CONFIG z (blunder_board h) Qxf7 = Some True \<and>
   getPieceValue (getPieceType (squares (blunder_board h) ! nat (mfrom Qxf7))) = 900 \<and>
   getPieceValue (getPieceType (squares (blunder_board h) ! nat (mto Qxf7))) = 100 \<and>
   isSquareAttacked (makeMove z (blunder_board h) Qxf7) (mto Qxf7)
     (turn (makeMove z (blunder_board h) Qxf7)) = Some True"
  by (simp add: isCaptureSafe_def MCTS_CONFIG_def SEE_evaluate_def getPieceValue_def
      isSquareAttacked_def makeMove_def blunder_board_def Qxf7_def blunder_squares_def
      sq_set_def sq_at_def getPieceType_def js_rem_def PIECES_defs Let_def knightMoves_def
      kingMoves_def directions_def slide.simps isWhite_def isBlack_def)

section \<open>Final move selection\<close>

lemma mostVisited_spec:
  "(mostVisited h cs b = b \<and> (\<forall>c \<in> set cs. visitCount (h c) \<le> visitCount (h b))) \<or>
   (\<exists>i < length cs. mostVisited h cs b = cs ! i \<and>
      visitCount (h b) < visitCount (h (cs ! i)) \<and>
      (\<forall>j < length cs. visitCount (h (cs ! j)) \<le> visitCount (h (cs ! i))) \<and>
      (\<forall>j < i. visitCount (h (cs ! j)) < visitCount (h (cs ! i))))"
proof (induction cs arbitrary: b)
  case Nil
  then show ?case by simp
next
  case (Cons c cs)
  let ?vc = "\<lambda>x. visitCount (h x)"
  show ?case
  proof (cases "?vc c > ?vc b")
    case True
    from Cons.IH [of c] show ?thesis
    proof
      assume a: "mostVisited h cs c = c \<and> (\<forall>x \<in> set cs. ?vc x \<le> ?vc c)"
      have "0 < length (c # cs) \<and> mostVisited h (c # cs) b = (c # cs) ! 0 \<and>
            ?vc b < ?vc ((c # cs) ! 0) \<and>
            (\<forall>j < length (c # cs). ?vc ((c # cs) ! j) \<le> ?vc ((c # cs) ! 0)) \<and>
            (\<forall>j < 0. ?vc ((c # cs) ! j) < ?vc ((c # cs) ! 0))"
        using a True by (auto simp: nth_Cons')
      then show ?thesis by blast
    next
      assume "\<exists>i < length cs. mostVisited h cs c = cs ! i \<and> ?vc c < ?vc (cs ! i) \<and>
        (\<forall>j < length cs. ?vc (cs ! j) \<le> ?vc (cs ! i)) \<and> (\<forall>j < i. ?vc (cs ! j) < ?vc (cs ! i))"
      then obtain i where i: "i < length cs" "mostVisited h cs c = cs ! i" "?vc c < ?vc (cs ! i)"
        "\<forall>j < length cs. ?vc (cs ! j) \<le> ?vc (cs ! i)" "\<forall>j < i. ?vc (cs ! j) < ?vc (cs ! i)"
        by blast
      have "Suc i < length (c # cs) \<and> mostVisited h (c # cs) b = (c # cs) ! Suc i \<and>
            ?vc b < ?vc ((c # cs) ! Suc i) \<and>
            (\<forall>j < length (c # cs). ?vc ((c # cs) ! j) \<le> ?vc ((c # cs) ! Suc i)) \<and>
            (\<forall>j < Suc i. ?vc ((c # cs) ! j) < ?vc ((c # cs) ! Suc i))"
        using i True by (auto simp: nth_Cons' less_Suc_eq_0_disj)
      then show ?thesis by blast
    qed
  next
    case False
    from Cons.IH [of b] show ?thesis
    proof
      assume "mostVisited h cs b = b \<and> (\<forall>x \<in> set cs. ?vc x \<le> ?vc b)"
      then show ?thesis using False by auto
    next
      assume "\<exists>i < length cs. mostVisited h cs b = cs ! i \<and> ?vc b < ?vc (cs ! i) \<and>
        (\<forall>j < length cs. ?vc (cs ! j) \<le> ?vc (cs ! i)) \<and> (\<forall>j < i. ?vc (cs ! j) < ?vc (cs ! i))"
      then obtain i where i: "i < length cs" "mostVisited h cs b = cs ! i" "?vc b < ?vc (cs ! i)"
        "\<forall>j < length cs. ?vc (cs ! j) \<le> ?vc (cs ! i)" "\<forall>j < i. ?vc (cs ! j) < ?vc (cs ! i)"
        by blast
      have "Suc i < length (c # cs) \<and> mostVisited h (c # cs) b = (c # cs) ! Suc i \<and>
            ?vc b < ?vc ((c # cs) ! Suc i) \<and>
            (\<forall>j < length (c # cs). ?vc ((c # cs) ! j) \<le> ?vc ((c # cs) ! Suc i)) \<and>
            (\<forall>j < Suc i. ?vc ((c # cs) ! j) < ?vc ((c # cs) ! Suc i))"
        using i False by (auto simp: nth_Cons' less_Suc_eq_0_disj)
      then show ?thesis by blast
    qed
  qed
qed

text \<open>
  C6. With temperature 0, \<^verbatim>\<open>getBestMove\<close> on a node with at least one child returns
  the move of a child whose visit count is maximal and strictly greater than that of every
  earlier child, so the first most-visited child wins a tie. The result does not depend on
  the random draw \<open>r\<close>: repeated calls on an unchanged tree return the same move.
\<close>

theorem getBestMove_greedy:
  assumes "children (h n) \<noteq> []"
  shows "\<exists>i < length (children (h n)).
           (\<forall>r. getBestMove h n 0 r = move (h (children (h n) ! i))) \<and>
           (\<forall>j < length (children (h n)).
              visitCount (h (children (h n) ! j)) \<le> visitCount (h (children (h n) ! i))) \<and>
           (\<forall>j < i. visitCount (h (children (h n) ! j)) < visitCount (h (children (h n) ! i)))"
proof -
  let ?cs = "children (h n)"
  let ?vc = "\<lambda>x. visitCount (h x)"
  have gb: "\<And>r. getBestMove h n 0 r = move (h (mostVisited h ?cs (hd ?cs)))"
    using assms by (simp add: getBestMove_def Let_def)
  from mostVisited_spec [of h ?cs "hd ?cs"] show ?thesis
  proof
    assume a: "mostVisited h ?cs (hd ?cs) = hd ?cs \<and> (\<forall>c \<in> set ?cs. ?vc c \<le> ?vc (hd ?cs))"
    have "0 < length ?cs" using assms by simp
    moreover have "hd ?cs = ?cs ! 0" using assms by (simp add: hd_conv_nth)
    ultimately show ?thesis using a gb by (intro exI [of _ 0]) auto
  next
    assume "\<exists>i < length ?cs. mostVisited h ?cs (hd ?cs) = ?cs ! i \<and> ?vc (hd ?cs) < ?vc (?cs ! i) \<and>
        (\<forall>j < length ?cs. ?vc (?cs ! j) \<le> ?vc (?cs ! i)) \<and> (\<forall>j < i. ?vc (?cs ! j) < ?vc (?cs ! i))"
    then show ?thesis using gb by auto
  qed
qed

theorem getBestMove_greedy_witness:
  "children (tie_heap 0) \<noteq> [] \<and>
   (\<exists>i < length (children (tie_heap 0)).
      (\<forall>r. getBestMove tie_heap 0 0 r = move (tie_heap (children (tie_heap 0) ! i))) \<and>
      (\<forall>j < length (children (tie_heap 0)).
         visitCount (tie_heap (children (tie_heap 0) ! j)) \<le> visitCount (tie_heap (children (tie_heap 0) ! i))) \<and>
      (\<forall>j < i. visitCount (tie_heap (children (tie_heap 0) ! j)) < visitCount (tie_heap (children (tie_heap 0) ! i))))"
proof -
  have ne: "children (tie_heap 0) \<noteq> []"
    by (simp add: tie_heap_def MCTSNode_def)
  from getBestMove_greedy [of tie_heap 0, OF ne] ne show ?thesis by simp
qed

section \<open>Child selection\<close>

lemma selectChild_loop_spec:
  "(selectChild_loop cfg bs h pv cs bc bv = bc \<and>
      (\<forall>c \<in> set cs. \<exists>v. bv = Some v \<and> getPUCT cfg bs (h c) pv \<le> v)) \<or>
   (\<exists>i < length cs. selectChild_loop cfg bs h pv cs bc bv = Some (cs ! i) \<and>
      (\<forall>v. bv = Some v \<longrightarrow> v < getPUCT cfg bs (h (cs ! i)) pv) \<and>
      (\<forall>j < length cs. getPUCT cfg bs (h (cs ! j)) pv \<le> getPUCT cfg bs (h (cs ! i)) pv) \<and>
      (\<forall>j < i. getPUCT cfg bs (h (cs ! j)) pv < getPUCT cfg bs (h (cs ! i)) pv))"
proof (induction cs arbitrary: bc bv)
  case Nil
  then show ?case by simp
next
  case (Cons c cs)
  let ?s = "\<lambda>x. getPUCT cfg bs (h x) pv"
  let ?L = "\<lambda>xs b w. selectChild_loop cfg bs h pv xs b w"
  show ?case
  proof (cases "case bv of None \<Rightarrow> True | Some w \<Rightarrow> ?s c > w")
    case True
    then have step: "?L (c # cs) bc bv = ?L cs (Some c) (Some (?s c))"
      by (simp add: Let_def)
    from Cons.IH [of "Some c" "Some (?s c)"] show ?thesis
    proof
      assume a: "?L cs (Some c) (Some (?s c)) = Some c \<and>
                 (\<forall>x \<in> set cs. \<exists>v. Some (?s c) = Some v \<and> ?s x \<le> v)"
      have "0 < length (c # cs) \<and> ?L (c # cs) bc bv = Some ((c # cs) ! 0) \<and>
            (\<forall>v. bv = Some v \<longrightarrow> v < ?s ((c # cs) ! 0)) \<and>
            (\<forall>j < length (c # cs). ?s ((c # cs) ! j) \<le> ?s ((c # cs) ! 0)) \<and>
            (\<forall>j < 0. ?s ((c # cs) ! j) < ?s ((c # cs) ! 0))"
        using a True step by (auto simp: nth_Cons' split: option.splits)
      then show ?thesis by blast
    next
      assume "\<exists>i < length cs. ?L cs (Some c) (Some (?s c)) = Some (cs ! i) \<and>
          (\<forall>v. Some (?s c) = Some v \<longrightarrow> v < ?s (cs ! i)) \<and>
          (\<forall>j < length cs. ?s (cs ! j) \<le> ?s (cs ! i)) \<and> (\<forall>j < i. ?s (cs ! j) < ?s (cs ! i))"
      then obtain i where i: "i < length cs" "?L cs (Some c) (Some (?s c)) = Some (cs ! i)"
          "?s c < ?s (cs ! i)" "\<forall>j < length cs. ?s (cs ! j) \<le> ?s (cs ! i)"
          "\<forall>j < i. ?s (cs ! j) < ?s (cs ! i)"
        by auto
      have "Suc i < length (c # cs) \<and> ?L (c # cs) bc bv = Some ((c # cs) ! Suc i) \<and>
            (\<forall>v. bv = Some v \<longrightarrow> v < ?s ((c # cs) ! Suc i)) \<and>
            (\<forall>j < length (c # cs). ?s ((c # cs) ! j) \<le> ?s ((c # cs) ! Suc i)) \<and>
            (\<forall>j < Suc i. ?s ((c # cs) ! j) < ?s ((c # cs) ! Suc i))"
        using i True step by (auto simp: nth_Cons' less_Suc_eq_0_disj split: option.splits)
      then show ?thesis by blast
    qed
  next
    case False
    then obtain w where w: "bv = Some w" "?s c \<le> w"
      by (auto split: option.splits)
    then have step: "?L (c # cs) bc bv = ?L cs bc bv"
      by (simp add: Let_def)
    from Cons.IH [of bc bv] show ?thesis
    proof
      assume "?L cs bc bv = bc \<and> (\<forall>x \<in> set cs. \<exists>v. bv = Some v \<and> ?s x \<le> v)"
      then show ?thesis using w step by auto
    next
      assume "\<exists>i < length cs. ?L cs bc bv = Some (cs ! i) \<and>
          (\<forall>v. bv = Some v \<longrightarrow> v < ?s (cs ! i)) \<and>
          (\<forall>j < length cs. ?s (cs ! j) \<le> ?s (cs ! i)) \<and> (\<forall>j < i. ?s (cs ! j) < ?s (cs ! i))"
      then obtain i where i: "i < length cs" "?L cs bc bv = Some (cs ! i)"
          "w < ?s (cs ! i)" "\<forall>j < length cs. ?s (cs ! j) \<le> ?s (cs ! i)"
          "\<forall>j < i. ?s (cs ! j) < ?s (cs ! i)"
        using w by auto
      have "Suc i < length (c # cs) \<and> ?L (c # cs) bc bv = Some ((c # cs) ! Suc i) \<and>
            (\<forall>v. bv = Some v \<longrightarrow> v < ?s ((c # cs) ! Suc i)) \<and>
            (\<forall>j < length (c # cs). ?s ((c # cs) ! j) \<le> ?s ((c # cs) ! Suc i)) \<and>
            (\<forall>j < Suc i. ?s ((c # cs) ! j) < ?s ((c # cs) ! Suc i))"
        using i w step by (auto simp: nth_Cons' less_Suc_eq_0_disj)
      then show ?thesis by blast
    qed
  qed
qed

lemma selectChild_Some:
  assumes "children (h n) \<noteq> []"
  shows "\<exists>i < length (children (h n)).
           selectChild cfg bs h n = Some (children (h n) ! i) \<and>
           (\<forall>j < length (children (h n)).
              getPUCT cfg bs (h (children (h n) ! j)) (visitCount (h n))
                \<le> getPUCT cfg bs (h (children (h n) ! i)) (visitCount (h n))) \<and>
           (\<forall>j < i. getPUCT cfg bs (h (children (h n) ! j)) (visitCount (h n))
                < getPUCT cfg bs (h (children (h n) ! i)) (visitCount (h n)))"
proof -
  from assms obtain c where "c \<in> set (children (h n))"
    by (cases "children (h n)") auto
  then have "\<not> (\<forall>c \<in> set (children (h n)). \<exists>v. (None :: real option) = Some v \<and>
      getPUCT cfg bs (h c) (visitCount (h n)) \<le> v)"
    by auto
  with selectChild_loop_spec [of cfg bs h "visitCount (h n)" "children (h n)" None None]
  show ?thesis
    unfolding selectChild_def by blast
qed

text \<open>
  C1, as the engine computes it. For a node with at least one child, \<^verbatim>\<open>selectChild\<close>
  returns the first child in list order that maximises Q + U at the node's own visit
  count, where Q = (totalValue - virtualLoss * L) / (visitCount + virtualLoss), 0 for an
  unvisited child, and U = c * prior * sqrt(parentVisits) / (1 + visitCount). The
  exploration constant c is chosen per child: \<^verbatim>\<open>endgameCPuct\<close> when the child's
  position holds fewer than \<^verbatim>\<open>endgamePieceThreshold\<close> pieces, \<^verbatim>\<open>cPuct\<close> otherwise.
\<close>

theorem selectChild_first_maximum:
  assumes "children (h n) \<noteq> []"
  shows "\<exists>Score. 
     (\<forall>c. Score c =
        (if visitCount (h c) = 0 then 0
         else (totalValue (h c) - real (node.virtualLoss (h c)) * config.virtualLoss cfg)
              / (real (visitCount (h c)) + real (node.virtualLoss (h c))))
        + (if length (filter (\<lambda>p. p \<noteq> EMPTY) (squares (bs (board (h c))))) < endgamePieceThreshold cfg
           then endgameCPuct cfg else cPuct cfg)
          * prior (h c) * sqrt (real (visitCount (h n))) / (1 + real (visitCount (h c)))) \<and>
     (\<exists>i < length (children (h n)).
        selectChild cfg bs h n = Some (children (h n) ! i) \<and>
        (\<forall>j < length (children (h n)). Score (children (h n) ! j) \<le> Score (children (h n) ! i)) \<and>
        (\<forall>j < i. Score (children (h n) ! j) < Score (children (h n) ! i)))"
proof -
  let ?S = "\<lambda>c. getPUCT cfg bs (h c) (visitCount (h n))"
  have "\<forall>c. ?S c =
        (if visitCount (h c) = 0 then 0
         else (totalValue (h c) - real (node.virtualLoss (h c)) * config.virtualLoss cfg)
              / (real (visitCount (h c)) + real (node.virtualLoss (h c))))
        + (if length (filter (\<lambda>p. p \<noteq> EMPTY) (squares (bs (board (h c))))) < endgamePieceThreshold cfg
           then endgameCPuct cfg else cPuct cfg)
          * prior (h c) * sqrt (real (visitCount (h n))) / (1 + real (visitCount (h c)))"
    by (simp add: getPUCT_def getQ_def getU_def Let_def)
  with selectChild_Some [of h n cfg bs, OF assms] show ?thesis
    by (intro exI [of _ ?S]) blast
qed

theorem selectChild_first_maximum_witness:
  "children (phase_heap 0) \<noteq> [] \<and>
   (\<exists>Score. 
     (\<forall>c. Score c =
        (if visitCount (phase_heap c) = 0 then 0
         else (totalValue (phase_heap c) - real (node.virtualLoss (phase_heap c)) * config.virtualLoss MCTS_CONFIG)
              / (real (visitCount (phase_heap c)) + real (node.virtualLoss (phase_heap c))))
        + (if length (filter (\<lambda>p. p \<noteq> EMPTY) (squares (phase_boards (board (phase_heap c)))))
                < endgamePieceThreshold MCTS_CONFIG
           then endgameCPuct MCTS_CONFIG else cPuct MCTS_CONFIG)
          * prior (phase_heap c) * sqrt (real (visitCount (phase_heap 0))) / (1 + real (visitCount (phase_heap c)))) \<and>
     (\<exists>i < length (children (phase_heap 0)).
        selectChild MCTS_CONFIG phase_boards phase_heap 0 = Some (children (phase_heap 0) ! i) \<and>
        (\<forall>j < length (children (phase_heap 0)).
           Score (children (phase_heap 0) ! j) \<le> Score (children (phase_heap 0) ! i)) \<and>
        (\<forall>j < i. Score (children (phase_heap 0) ! j) < Score (children (phase_heap 0) ! i))))"
proof -
  have ne: "children (phase_heap 0) \<noteq> []"
    by (simp add: phase_heap_def MCTSNode_def)
  from selectChild_first_maximum [of phase_heap 0 MCTS_CONFIG phase_boards, OF ne] ne
  show ?thesis by blast
qed

text \<open>
  With the single constant \<^verbatim>\<open>cPuct\<close> in U, the statement fails: at the root of
  \<open>phase_heap\<close> the first child has the larger score, 0.612 against 0.588, yet
  \<^verbatim>\<open>selectChild\<close> returns the second child, whose position has eleven pieces and is
  scored with \<^verbatim>\<open>endgameCPuct\<close>.
\<close>

theorem selectChild_single_cPuct_counterexample:
  "selectChild MCTS_CONFIG phase_boards phase_heap 0 = Some 2 \<and>
   children (phase_heap 0) = [1, 2] \<and>
   claimed_Score MCTS_CONFIG (phase_heap 2) (visitCount (phase_heap 0))
     < claimed_Score MCTS_CONFIG (phase_heap 1) (visitCount (phase_heap 0))"
  by (simp add: selectChild_def getPUCT_def getQ_def getU_def claimed_Score_def MCTS_CONFIG_def
      phase_heap_def phase_boards_def phase_board_def phase_squares_def MCTSNode_def
      makeMove_def plain_move_def sq_set_def getPieceType_def js_rem_def PIECES_defs Let_def)

section \<open>Backpropagation\<close>

lemma path_up_unique:
  "path_up h ps \<Longrightarrow> path_up h qs \<Longrightarrow> hd ps = hd qs \<Longrightarrow> ps = qs"
proof (induction ps arbitrary: qs)
  case Nil
  then show ?case by simp
next
  case (Cons n ps)
  from Cons.prems obtain qs' where qs: "qs = n # qs'"
    by (cases qs) auto
  show ?case
  proof (cases ps)
    case Nil
    with Cons.prems qs show ?thesis by (cases qs') auto
  next
    case (Cons p ps')
    with Cons.prems qs obtain qs'' where "qs' = p # qs''"
      by (cases qs') auto
    with Cons Cons.prems Cons.IH [of qs'] qs show ?thesis by auto
  qed
qed

lemma path_up_drop:
  "path_up h ps \<Longrightarrow> i < length ps \<Longrightarrow> path_up h (drop i ps)"
proof (induction i arbitrary: ps)
  case 0
  then show ?case by simp
next
  case (Suc i)
  then obtain n p qs where ps: "ps = n # p # qs"
    by (cases "(h, ps)" rule: path_up.cases) auto
  with Suc show ?case by simp
qed

lemma path_up_distinct:
  assumes "path_up h ps"
  shows "distinct ps"
proof (rule ccontr)
  assume "\<not> distinct ps"
  then obtain i j where ij: "i < j" "j < length ps" "ps ! i = ps ! j"
    by (metis distinct_conv_nth linorder_neqE_nat)
  have "path_up h (drop i ps)" "path_up h (drop j ps)"
    using assms ij by (auto intro: path_up_drop)
  moreover have "hd (drop i ps) = hd (drop j ps)"
    using ij by (simp add: hd_drop_conv_nth)
  ultimately have "drop i ps = drop j ps"
    by (rule path_up_unique)
  then have "length (drop i ps) = length (drop j ps)" by simp
  with ij show False by simp
qed

lemma path_up_cong:
  "(\<And>a. parent (h' a) = parent (h a)) \<Longrightarrow> path_up h' ps = path_up h ps"
  by (induction h ps rule: path_up.induct) auto

lemma backpropagate_path_aux:
  "path_up h ps \<Longrightarrow>
   \<exists>h'. backpropagate h (hd ps) v = Some h' \<and>
     (\<forall>i < length ps. h' (ps ! i) = bump (h (ps ! i)) (v * (-1) ^ i)) \<and>
     (\<forall>a. a \<notin> set ps \<longrightarrow> h' a = h a)"
proof (induction ps arbitrary: h v)
  case Nil
  then show ?case by simp
next
  case (Cons n qs)
  show ?case
  proof (cases qs)
    case Nil
    with Cons.prems show ?thesis
      by (subst backpropagate.simps) (simp add: bump_def Let_def)
  next
    case (Cons p ps)
    let ?h1 = "h(n := bump (h n) v)"
    have pu: "path_up h (n # p # ps)" using Cons.prems Cons by simp
    have d: "distinct (n # p # ps)" using pu by (rule path_up_distinct)
    have par: "\<And>a. parent (?h1 a) = parent (h a)" by (simp add: bump_def)
    have pu1: "path_up ?h1 qs"
      using pu path_up_cong [of ?h1 h "p # ps"] par Cons by simp
    from Cons.IH [OF pu1, of "- v"] obtain h' where ih:
      "backpropagate ?h1 (hd qs) (- v) = Some h'"
      "\<forall>i < length qs. h' (qs ! i) = bump (?h1 (qs ! i)) (- v * (-1) ^ i)"
      "\<forall>a. a \<notin> set qs \<longrightarrow> h' a = ?h1 a"
      by blast
    have h': "backpropagate ?h1 p (- v) = Some h'"
      "\<forall>i < length (p # ps). h' ((p # ps) ! i) = bump (?h1 ((p # ps) ! i)) (- v * (-1) ^ i)"
      "\<forall>a. a \<notin> set (p # ps) \<longrightarrow> h' a = ?h1 a"
      using ih unfolding Cons by simp_all
    have bp: "backpropagate h n v = Some h'"
      using pu h'(1) by (subst backpropagate.simps) (simp add: bump_def Let_def)
    have n0: "h' n = bump (h n) v" using h'(3) d by auto
    have rest: "h' ((p # ps) ! i) = bump (h ((p # ps) ! i)) (v * (-1) ^ Suc i)" if "i < length (p # ps)" for i
    proof -
      have "(p # ps) ! i \<noteq> n" using d that by (metis distinct.simps(2) nth_mem)
      then show ?thesis using h'(2) that by simp
    qed
    have "\<forall>i < length (n # p # ps). h' ((n # p # ps) ! i) = bump (h ((n # p # ps) ! i)) (v * (-1) ^ i)"
    proof (intro allI impI)
      fix i assume "i < length (n # p # ps)"
      then show "h' ((n # p # ps) ! i) = bump (h ((n # p # ps) ! i)) (v * (-1) ^ i)"
        using n0 rest by (cases i) auto
    qed
    moreover have "\<forall>a. a \<notin> set (n # p # ps) \<longrightarrow> h' a = h a"
      using h'(3) by auto
    ultimately show ?thesis using bp Cons by auto
  qed
qed

text \<open>
  C2. \<^verbatim>\<open>backpropagate\<close>, started at a node with value \<open>v\<close>, returns, and has then
  added 1 to \<^verbatim>\<open>visitCount\<close> and the value to \<^verbatim>\<open>totalValue\<close> at every node on
  the path from that node up to the root, with the sign of the value flipped once per step,
  and has changed no other node. The root of a path of k edges receives
  \<open>v * (-1) ^ k\<close>.
\<close>

theorem backpropagate_path:
  assumes "path_up h ps"
  shows "\<exists>h'. backpropagate h (hd ps) v = Some h' \<and>
     (\<forall>i < length ps.
        h' (ps ! i) = (h (ps ! i))\<lparr> visitCount := visitCount (h (ps ! i)) + 1,
                                   totalValue := totalValue (h (ps ! i)) + v * (-1) ^ i \<rparr>) \<and>
     (\<forall>a. a \<notin> set ps \<longrightarrow> h' a = h a) \<and>
     totalValue (h' (last ps)) = totalValue (h (last ps)) + v * (-1) ^ (length ps - 1)"
proof -
  from backpropagate_path_aux [OF assms, of v] obtain h' where h':
    "backpropagate h (hd ps) v = Some h'"
    "\<forall>i < length ps. h' (ps ! i) = bump (h (ps ! i)) (v * (-1) ^ i)"
    "\<forall>a. a \<notin> set ps \<longrightarrow> h' a = h a"
    by blast
  have ne: "ps \<noteq> []" using assms by auto
  then have "h' (last ps) = bump (h (last ps)) (v * (-1) ^ (length ps - 1))"
    using h'(2) by (simp add: last_conv_nth)
  then have "totalValue (h' (last ps)) = totalValue (h (last ps)) + v * (-1) ^ (length ps - 1)"
    by (simp add: bump_def)
  with h' show ?thesis by (auto simp: bump_def)
qed

theorem backpropagate_path_witness:
  "path_up tie_heap [2, 0] \<and>
   (\<exists>h'. backpropagate tie_heap (hd [2, 0]) (1 / 2) = Some h' \<and>
     (\<forall>i < length [2, 0 :: nat].
        h' ([2, 0] ! i) = (tie_heap ([2, 0] ! i))\<lparr> visitCount := visitCount (tie_heap ([2, 0] ! i)) + 1,
                                   totalValue := totalValue (tie_heap ([2, 0] ! i)) + (1 / 2) * (-1) ^ i \<rparr>) \<and>
     (\<forall>a. a \<notin> set [2, 0] \<longrightarrow> h' a = tie_heap a) \<and>
     totalValue (h' (last [2, 0])) = totalValue (tie_heap (last [2, 0])) + (1 / 2) * (-1) ^ (length [2, 0 :: nat] - 1))"
proof -
  have p: "path_up tie_heap [2, 0]"
    by (simp add: tie_heap_def MCTSNode_def)
  from backpropagate_path [OF p, of "1 / 2"] p show ?thesis by blast
qed

section \<open>Running the examples\<close>

lemma search_unfold:
  assumes "initRoot (e\<lparr> startTime := clock 0, stopTime := map_option (\<lambda>t. clock 0 + t) timeLimit,
                        stopSearch := False, nodes := 0 \<rparr>) bref = (r, e1)"
  shows "search cfg env clock rnd e bref simulations0 timeLimit =
    (let e2 = expand env e1 r;
         sims = (if length (filter (\<lambda>p. p \<noteq> EMPTY) (squares (boards e bref)))
                      < endgamePieceThreshold cfg
                 then Some (endgameSimulations cfg) else simulations0)
     in if children (heap e2 r) = [] then Some (Inr (None, e2))
        else (case addDirichletNoise cfg rnd (heap e2) r of
                Inl err \<Rightarrow> Some (Inl err)
              | Inr h3 \<Rightarrow>
                 (case simLoop cfg env clock (case sims of None \<Rightarrow> 0 | Some k \<Rightarrow> k) 0 (e2\<lparr> heap := h3 \<rparr>) of
                    None \<Rightarrow> None
                  | Some (Inl err) \<Rightarrow> Some (Inl err)
                  | Some (Inr e4) \<Rightarrow>
                     Some (Inr (getBestMove (heap e4) r (temperature cfg)
                                  (rnd (length (children (heap e2 r)))), e4)))))"
  by (simp add: search_def assms)

lemma kq_after_squares: "squares kq_after \<noteq> kq_squares" "squares kq_after \<noteq> phase_squares"
  by (simp_all add: kq_after_def makeMove_def kq_board_def kq_squares_def phase_squares_def
      plain_move_def sq_set_def Let_def PIECES_defs getPieceType_def js_rem_def)

lemma kq_pieces:
  "length (filter (\<lambda>p. p \<noteq> EMPTY) (squares kq_board)) = 3"
  "length (filter (\<lambda>p. p \<noteq> EMPTY) (squares kq_after)) = 2"
  by (simp_all add: kq_after_def makeMove_def kq_board_def kq_squares_def
      plain_move_def sq_set_def Let_def PIECES_defs getPieceType_def js_rem_def)

lemma kq_fields:
  "root (kq_state k stop bs vc tv tm) = Some 0"
  "nodes (kq_state k stop bs vc tv tm) = k"
  "stopSearch (kq_state k stop bs vc tv tm) = False"
  "stopTime (kq_state k stop bs vc tv tm) = stop"
  "boards (kq_state k stop bs vc tv tm) = bs"
  "(kq_state k stop bs vc tv tm)\<lparr> nodes := j \<rparr> = kq_state j stop bs vc tv tm"
  "(kq_state k stop bs vc tv tm)\<lparr> heap := heap (kq_state k' stop' bs' vc' tv' tm') \<rparr>
     = kq_state k stop bs vc' tv' tm'"
  by (simp_all add: kq_state_def)

lemma kq_heap_simps:
  "heap (kq_state k stop bs vc tv tm) 0 =
     (MCTSNode 0 None None 0)\<lparr> children := [1], visitCount := vc, totalValue := - tv, isExpanded := True \<rparr>"
  "heap (kq_state k stop bs vc tv tm) (Suc 0) =
     (MCTSNode 1 (Some 0) (Some (plain_move 52 4)) 1)\<lparr> visitCount := vc, totalValue := tv,
                  isTerminal := tm, terminalValue := (if tm then - 50000 else 0) \<rparr>"
  by (simp_all add: kq_state_def)

lemma kq_select: "selectLeaf cfg bs' (heap (kq_state k stop bs vc tv tm)) 0 = Some (Some (Suc 0))"
  by (simp add: selectLeaf.simps selectChild_def kq_state_def MCTSNode_def)

lemma kq_backprop:
  "backpropagate (heap (kq_state k stop bs vc tv tm)) (Suc 0) v
     = Some (heap (kq_state k' stop' bs' (Suc vc) (tv + v) tm))"
proof -
  let ?h = "heap (kq_state k stop bs vc tv tm)"
  have p: "path_up ?h [Suc 0, 0]"
    by (simp add: kq_state_def MCTSNode_def)
  from backpropagate_path_aux [OF p, of v] obtain h' where h':
    "backpropagate ?h (Suc 0) v = Some h'"
    "\<forall>i < 2. h' ([Suc 0, 0] ! i) = bump (?h ([Suc 0, 0] ! i)) (v * (-1) ^ i)"
    "\<forall>a. a \<notin> set [Suc 0, 0] \<longrightarrow> h' a = ?h a"
    by auto
  have h1: "h' (Suc 0) = bump (?h (Suc 0)) v"
    using h'(2) [rule_format, of 0] by simp
  have h0: "h' 0 = bump (?h 0) (- v)"
    using h'(2) [rule_format, of 1] by simp
  have "h' a = heap (kq_state k' stop' bs' (Suc vc) (tv + v) tm) a" for a
  proof -
    consider "a = 0" | "a = Suc 0" | "a \<notin> set [Suc 0, 0]" by auto
    then show ?thesis
    proof cases
      case 1
      then show ?thesis using h0 by (simp add: kq_state_def MCTSNode_def bump_def)
    next
      case 2
      then show ?thesis using h1 by (simp add: kq_state_def MCTSNode_def bump_def)
    next
      case 3
      then show ?thesis using h'(3) by (simp add: kq_state_def MCTSNode_def)
    qed
  qed
  then have "h' = heap (kq_state k' stop' bs' (Suc vc) (tv + v) tm)" by (rule ext)
  with h'(1) show ?thesis by simp
qed

lemma kq_sim1:
  "runSimulation MCTS_CONFIG demo_env (kq_state k stop bs 0 0 False)
     = Some (Inr (kq_state (Suc k) stop bs (Suc 0) 0 False))"
proof -
  have v: "evaluatePosition demo_env b = 0" for b
    by (simp add: evaluatePosition_def normalizeValue_def demo_env_def)
  have "backpropagate_from (kq_state (Suc k) stop bs 0 0 False) (Suc 0) 0
          = Some (Inr (kq_state (Suc k) stop bs (Suc 0) 0 False))"
    unfolding backpropagate_from_def
    by (simp add: kq_backprop [where k' = "Suc k" and stop' = stop and bs' = bs] kq_fields)
  then show ?thesis
    by (simp add: runSimulation_def kq_select kq_fields Let_def kq_heap_simps MCTSNode_def
        MCTS_CONFIG_def v)
qed

lemma kq_expand:
  assumes "bs (Suc 0) = kq_after"
  shows "expand demo_env (kq_state k stop bs (Suc 0) 0 False) (Suc 0) = kq_state k stop bs (Suc 0) 0 True"
  using assms
  apply (simp add: expand_def kq_heap_simps kq_fields MCTSNode_def demo_env_def kq_after_squares
      Let_def MATE_SCORE_def)
  apply (simp add: kq_state_def MCTSNode_def)
  done

lemma kq_sim2:
  assumes "bs (Suc 0) = kq_after"
  shows "runSimulation MCTS_CONFIG demo_env (kq_state k stop bs (Suc 0) 0 False)
     = Some (Inr (kq_state (Suc k) stop bs (Suc (Suc 0)) (- 50000) True))"
proof -
  have "backpropagate_from (kq_state (Suc k) stop bs (Suc 0) 0 True) (Suc 0) (- 50000)
          = Some (Inr (kq_state (Suc k) stop bs (Suc (Suc 0)) (- 50000) True))"
    unfolding backpropagate_from_def
    by (simp add: kq_backprop [where k' = "Suc k" and stop' = stop and bs' = bs] kq_fields)
  then show ?thesis
    by (simp add: runSimulation_def kq_select kq_fields Let_def kq_heap_simps MCTSNode_def
        MCTS_CONFIG_def kq_expand [of bs, OF assms])
qed

lemma kq_noise:
  "addDirichletNoise MCTS_CONFIG (\<lambda>i. 1 / 2) (heap (kq_state k stop bs vc tv tm)) 0
     = Inr (heap (kq_state k stop bs vc tv tm))"
  by (simp add: addDirichletNoise_def kq_state_def MCTSNode_def MCTS_CONFIG_def Let_def)

lemma kq_loop:
  assumes "bs (Suc 0) = kq_after"
  shows "simLoop MCTS_CONFIG demo_env two_ticks 2500 0 (kq_state 0 (Some 1000) bs 0 0 False)
     = Some (Inr (kq_state 2 (Some 1000) bs 2 (- 50000) True))"
proof -
  have t: "two_ticks (Suc 0) = 1" "two_ticks (Suc (Suc 0)) = 2" "two_ticks (Suc (Suc (Suc 0))) = 5000"
    by (simp_all add: two_ticks_def)
  have "simLoop MCTS_CONFIG demo_env two_ticks 2500 0 (kq_state 0 (Some 1000) bs 0 0 False)
      = simLoop MCTS_CONFIG demo_env two_ticks 2500 (Suc 0) (kq_state (Suc 0) (Some 1000) bs (Suc 0) 0 False)"
    by (subst simLoop.simps) (simp add: kq_sim1 kq_fields t)
  also have "\<dots> = simLoop MCTS_CONFIG demo_env two_ticks 2500 (Suc (Suc 0))
        (kq_state (Suc (Suc 0)) (Some 1000) bs (Suc (Suc 0)) (- 50000) True)"
    by (subst simLoop.simps) (simp add: kq_sim2 [of bs, OF assms] kq_fields t)
  also have "\<dots> = Some (Inr (kq_state 2 (Some 1000) bs 2 (- 50000) True))"
    by (subst simLoop.simps) (simp add: kq_fields t numeral_2_eq_2)
  finally show ?thesis .
qed

lemma kq_best:
  "getBestMove (heap (kq_state k stop bs 2 tv tm)) 0 (temperature MCTS_CONFIG) (1 / 2)
     = Some (plain_move 52 4)"
  by (simp add: getBestMove_def kq_state_def MCTSNode_def MCTS_CONFIG_def Let_def)

lemma kq_first_search:
  "search MCTS_CONFIG demo_env two_ticks (\<lambda>i. 1 / 2) (new_engine kq_board) 0 (Some 2000) (Some 1000)
     = Some (Inr (Some (plain_move 52 4),
                  kq_state 2 (Some 1000) ((\<lambda>a. kq_board)(1 := kq_after)) 2 (- 50000) True))"
proof -
  let ?bs = "(\<lambda>a. kq_board)(Suc 0 := kq_after)"
  let ?e1 = "\<lparr> root = Some 0, nodes = 0, startTime = 0, stopTime = Some 1000, stopSearch = False,
     heap = (\<lambda>a. MCTSNode 0 None None 0)(0 := MCTSNode 0 None None 0), nxt = 1,
     boards = (\<lambda>a. kq_board), bnxt = 1 \<rparr>"
  have i: "initRoot ((new_engine kq_board)\<lparr> startTime := two_ticks 0,
             stopTime := map_option (\<lambda>t. two_ticks 0 + t) (Some 1000),
             stopSearch := False, nodes := 0 \<rparr>) 0 = (0, ?e1)"
    by (simp add: initRoot_def new_engine_def Let_def two_ticks_def)
  have x: "expand demo_env ?e1 0 = kq_state 0 (Some 1000) ?bs 0 0 False"
    apply (simp add: expand_def demo_env_def Let_def MCTSNode_def kq_board_def kq_state_def)
    apply (simp add: kq_after_def kq_board_def fun_upd_twist)
    done
  have b: "?bs (Suc 0) = kq_after" by simp
  have p: "length (filter (\<lambda>p. p \<noteq> EMPTY) (squares (boards (new_engine kq_board) 0))) = 3"
    by (simp add: new_engine_def kq_pieces)
  show ?thesis
    unfolding search_unfold [where clock = two_ticks and timeLimit = "Some 1000", OF i] x Let_def
    by (simp add: kq_heap_simps MCTSNode_def kq_noise kq_fields p
        MCTS_CONFIG_def [THEN arg_cong [of _ _ endgamePieceThreshold]]
        MCTS_CONFIG_def [THEN arg_cong [of _ _ endgameSimulations]]
        kq_loop [of ?bs, OF b] kq_best)
qed


lemma simLoop_stop:
  "simLoop cfg env clock 0 i e = Some (Inr e)"
  "i < sims \<Longrightarrow> stopTime e = Some t \<Longrightarrow> t \<le> clock (Suc i) \<Longrightarrow> simLoop cfg env clock sims i e = Some (Inr e)"
  by (subst simLoop.simps, simp)+

lemma kq_second_search:
  "search MCTS_CONFIG demo_env two_ticks (\<lambda>i. 1 / 2)
     ((kq_state 2 (Some 1000) ((\<lambda>a. kq_board)(1 := kq_after)) 2 (- 50000) True)
        \<lparr> boards := (boards (kq_state 2 (Some 1000) ((\<lambda>a. kq_board)(1 := kq_after)) 2 (- 50000) True))
                        (0 := kq_after) \<rparr>)
     0 (Some 2000) (Some 0)
   = Some (Inr (Some (plain_move 52 4),
                kq_state 0 (Some 0) ((\<lambda>a. kq_board)(1 := kq_after, 0 := kq_after)) 2 (- 50000) True))"
proof -
  let ?bs = "(\<lambda>a. kq_board)(Suc 0 := kq_after, 0 := kq_after)"
  let ?e = "(kq_state 2 (Some 1000) ((\<lambda>a. kq_board)(1 := kq_after)) 2 (- 50000) True)
        \<lparr> boards := (boards (kq_state 2 (Some 1000) ((\<lambda>a. kq_board)(1 := kq_after)) 2 (- 50000) True))
                        (0 := kq_after) \<rparr>"
  let ?e1 = "kq_state 0 (Some 0) ?bs 2 (- 50000) True"
  have i: "initRoot (?e\<lparr> startTime := two_ticks 0,
             stopTime := map_option (\<lambda>t. two_ticks 0 + t) (Some 0),
             stopSearch := False, nodes := 0 \<rparr>) 0 = (0, ?e1)"
    by (simp add: initRoot_def kq_state_def Let_def two_ticks_def MCTSNode_def)
  have x: "expand demo_env ?e1 0 = ?e1"
    by (simp add: expand_def kq_heap_simps MCTSNode_def)
  have p: "length (filter (\<lambda>p. p \<noteq> EMPTY) (squares (boards ?e 0))) = 2"
    by (simp add: kq_fields kq_pieces)
  have l: "simLoop MCTS_CONFIG demo_env two_ticks 2500 0 ?e1 = Some (Inr ?e1)"
    by (rule simLoop_stop(2) [where t = 0]) (simp_all add: kq_fields two_ticks_def)
  show ?thesis
    unfolding search_unfold [where clock = two_ticks and timeLimit = "Some 0", OF i] x Let_def
    by (simp add: kq_heap_simps MCTSNode_def kq_noise kq_fields p
        MCTS_CONFIG_def [THEN arg_cong [of _ _ endgamePieceThreshold]]
        MCTS_CONFIG_def [THEN arg_cong [of _ _ endgameSimulations]]
        l kq_best kq_pieces)
qed

section \<open>Values passed to backpropagation\<close>

lemma normalizeValue_bounds: "- 1 < normalizeValue score \<and> normalizeValue score < 1"
  by (simp add: normalizeValue_def tanh_real_gt_neg1 tanh_real_lt_1)

text \<open>
  C3. A search of the position \<open>kq_board\<close> with two simulations. Both go through the
  root's only child. The first evaluates the child's position and backpropagates the
  normalised value, here 0. The second expands the child, finds no move, marks it
  terminal with \<^verbatim>\<open>terminalValue = -MATE_SCORE\<close> and backpropagates that number as it
  is: the child's \<^verbatim>\<open>totalValue\<close> is then -50000 and the root's 50000, outside [-1, 1].
\<close>

theorem terminal_value_not_normalized:
  "\<exists>e'. search MCTS_CONFIG demo_env two_ticks (\<lambda>i. 1 / 2) (new_engine kq_board) 0 (Some 2000) (Some 1000)
          = Some (Inr (Some (plain_move 52 4), e')) \<and>
        nodes e' = 2 \<and> visitCount (heap e' 1) = 2 \<and>
        isTerminal (heap e' 1) \<and> terminalValue (heap e' 1) = - 50000 \<and>
        totalValue (heap e' 1) = normalizeValue (evaluate demo_env kq_after) + (- 50000) \<and>
        totalValue (heap e' 1) = - 50000 \<and> totalValue (heap e' 0) = 50000"
  unfolding kq_first_search
  by (simp add: kq_fields kq_state_def MCTSNode_def normalizeValue_def demo_env_def)

section \<open>A root without moves\<close>

lemma search_fresh_root_no_moves:
  assumes "root e = None" and "generate env (boards e bref) = []"
  shows "\<exists>e'. search cfg env clock rnd e bref simulations0 timeLimit = Some (Inr (None, e')) \<and>
           nodes e' = 0 \<and> root e' = Some (nxt e) \<and> isTerminal (heap e' (nxt e)) \<and>
           visitCount (heap e' (nxt e)) = 0"
  using assms
  by (simp add: search_def initRoot_def expand_def Let_def MCTSNode_def)

text \<open>
  C7. \<^verbatim>\<open>search\<close> stores the board object it is given in the root and keeps that root
  as long as the hash read through it equals the hash of the board passed in. The UCI
  front end passes the same board object to every search and rewrites it in place for
  every \<^verbatim>\<open>position\<close> command, so after the first search the two hashes are read from
  one object. Here the first search is for \<open>kq_board\<close>; the caller then overwrites its
  board (address 0) with the position after Qxe8, in which the generator finds no move,
  and searches again. The root of the first search is kept with its child, and the
  second search returns the move Qe2xe8 instead of \<^verbatim>\<open>null\<close>.
\<close>

theorem search_stale_root_returns_move:
  "generate demo_env kq_after = [] \<and>
   (\<exists>e1. search MCTS_CONFIG demo_env two_ticks (\<lambda>i. 1 / 2) (new_engine kq_board) 0 (Some 2000) (Some 1000)
            = Some (Inr (Some (plain_move 52 4), e1)) \<and>
      (\<exists>e2. search MCTS_CONFIG demo_env two_ticks (\<lambda>i. 1 / 2)
               (e1\<lparr> boards := (boards e1)(0 := kq_after) \<rparr>) 0 (Some 2000) (Some 0)
             = Some (Inr (Some (plain_move 52 4), e2)) \<and>
             boards e2 0 = kq_after \<and> root e2 = root e1))"
proof -
  have g: "generate demo_env kq_after = []"
    by (simp add: demo_env_def kq_after_squares)
  show ?thesis
    unfolding kq_first_search
    using g kq_second_search by (simp add: kq_fields)
qed

section \<open>Noise at the root\<close>

lemma noise_blend_sum:
  assumes "distinct cs" and "length noise = length cs"
  shows "(\<Sum>c \<leftarrow> cs. prior (noise_blend epsilon noiseSum cs noise h c))
           = (1 - epsilon) * (\<Sum>c \<leftarrow> cs. prior (h c)) + epsilon * (sum_list noise / noiseSum)
         \<and> (\<forall>a. a \<notin> set cs \<longrightarrow> noise_blend epsilon noiseSum cs noise h a = h a)"
  using assms
proof (induction cs arbitrary: noise h)
  case Nil
  then show ?case by simp
next
  case (Cons c cs)
  then obtain x xs where n: "noise = x # xs" by (cases noise) auto
  let ?h1 = "h(c := (h c)\<lparr> prior := (1 - epsilon) * prior (h c) + epsilon * (x / noiseSum) \<rparr>)"
  have d: "distinct cs" "c \<notin> set cs" "length xs = length cs"
    using Cons.prems n by auto
  note IH = Cons.IH [OF d(1) d(3), of ?h1]
  have ih: "(\<Sum>a \<leftarrow> cs. prior (noise_blend epsilon noiseSum cs xs ?h1 a))
           = (1 - epsilon) * (\<Sum>a \<leftarrow> cs. prior (?h1 a)) + epsilon * (sum_list xs / noiseSum)"
    using IH by (rule conjunct1)
  have fr: "\<forall>a. a \<notin> set cs \<longrightarrow> noise_blend epsilon noiseSum cs xs ?h1 a = ?h1 a"
    using IH by (rule conjunct2)
  have same: "(\<Sum>a \<leftarrow> cs. prior (?h1 a)) = (\<Sum>a \<leftarrow> cs. prior (h a))"
    using d(2) by (intro arg_cong [where f = sum_list] map_cong) auto
  have hc: "prior (noise_blend epsilon noiseSum cs xs ?h1 c)
              = (1 - epsilon) * prior (h c) + epsilon * (x / noiseSum)"
    using fr d(2) by simp
  have step: "noise_blend epsilon noiseSum (c # cs) noise h = noise_blend epsilon noiseSum cs xs ?h1"
    using n by (simp add: Let_def)
  have "(\<Sum>a \<leftarrow> c # cs. prior (noise_blend epsilon noiseSum (c # cs) noise h a))
          = ((1 - epsilon) * prior (h c) + epsilon * (x / noiseSum))
            + ((1 - epsilon) * (\<Sum>a \<leftarrow> cs. prior (h a)) + epsilon * (sum_list xs / noiseSum))"
    unfolding step using ih same hc by simp
  also have "\<dots> = (1 - epsilon) * (\<Sum>a \<leftarrow> c # cs. prior (h a)) + epsilon * (sum_list noise / noiseSum)"
    using n by (simp add: algebra_simps add_divide_distrib)
  finally have A: "(\<Sum>a \<leftarrow> c # cs. prior (noise_blend epsilon noiseSum (c # cs) noise h a))
      = (1 - epsilon) * (\<Sum>a \<leftarrow> c # cs. prior (h a)) + epsilon * (sum_list noise / noiseSum)" .
  have B: "\<forall>a. a \<notin> set (c # cs) \<longrightarrow> noise_blend epsilon noiseSum (c # cs) noise h a = h a"
    unfolding step using fr by auto
  from A B show ?case by blast
qed

lemma foldl_add_sum_list: "foldl (+) (a :: real) xs = a + sum_list xs"
  by (induction xs arbitrary: a) auto

lemma addDirichletNoise_sum:
  assumes "addDirichletNoise cfg rnd h n = Inr h'" and "distinct (children (h n))"
    and "(\<Sum>c \<leftarrow> children (h n). prior (h c)) = 1"
  shows "(\<Sum>c \<leftarrow> children (h n). prior (h' c)) = 1"
proof (cases "children (h n) = []")
  case True
  with assms show ?thesis by (simp add: addDirichletNoise_def)
next
  case False
  let ?cs = "children (h n)"
  let ?noise = "map (\<lambda>i. rnd i powr (1 / dirichletAlpha cfg)) [0 ..< length ?cs]"
  have s: "foldl (+) 0 ?noise = sum_list ?noise"
    by (simp add: foldl_add_sum_list)
  from assms(1) False have nz: "sum_list ?noise \<noteq> 0"
    and h': "h' = noise_blend (dirichletEpsilon cfg) (sum_list ?noise) ?cs ?noise h"
    by (auto simp: addDirichletNoise_def Let_def s split: if_splits)
  from noise_blend_sum [OF assms(2), of ?noise "dirichletEpsilon cfg" "sum_list ?noise" h]
  have "(\<Sum>c \<leftarrow> ?cs. prior (h' c))
          = (1 - dirichletEpsilon cfg) * (\<Sum>c \<leftarrow> ?cs. prior (h c))
            + dirichletEpsilon cfg * (sum_list ?noise / sum_list ?noise)"
    using h' by simp
  with nz assms(3) show ?thesis by simp
qed

text \<open>
  C10. The noise vector is divided by its sum without a check. \<^verbatim>\<open>Math.random()\<close>
  may return 0; at a root with one child (priors summing to 1) a sample of 0 makes the
  sum 0, the normalised noise 0 / 0 and the blended prior \<^verbatim>\<open>NaN\<close>, so the priors no
  longer sum to 1.
\<close>

theorem addDirichletNoise_zero_samples:
  "children (heap (kq_state 0 (Some 1000) ((\<lambda>a. kq_board)(1 := kq_after)) 0 0 False) 0) = [1] \<and>
   (\<Sum>c \<leftarrow> [1]. prior (heap (kq_state 0 (Some 1000) ((\<lambda>a. kq_board)(1 := kq_after)) 0 0 False) c)) = 1 \<and>
   addDirichletNoise MCTS_CONFIG (\<lambda>i. 0)
     (heap (kq_state 0 (Some 1000) ((\<lambda>a. kq_board)(1 := kq_after)) 0 0 False)) 0 = Inl NotANumber"
  by (simp add: addDirichletNoise_def kq_state_def MCTSNode_def MCTS_CONFIG_def Let_def)

section \<open>Expansion\<close>

lemma expand_loop_fields:
  "root (expand_loop env n priors i ms e) = root e"
  "nodes (expand_loop env n priors i ms e) = nodes e"
  "startTime (expand_loop env n priors i ms e) = startTime e"
  "stopTime (expand_loop env n priors i ms e) = stopTime e"
  "stopSearch (expand_loop env n priors i ms e) = stopSearch e"
  "nxt (expand_loop env n priors i ms e) = nxt e + length ms"
  "bnxt (expand_loop env n priors i ms e) = bnxt e + length ms"
  by (induction ms arbitrary: i e; simp add: Let_def)+

lemma expand_loop_heap:
  assumes "n < nxt e"
  shows "heap (expand_loop env n priors i ms e) a =
     (if a = n then (heap e n)\<lparr> children := children (heap e n) @ [nxt e ..< nxt e + length ms] \<rparr>
      else if nxt e \<le> a \<and> a < nxt e + length ms
           then MCTSNode (bnxt e + (a - nxt e)) (Some n) (Some (ms ! (a - nxt e))) (priors ! (i + (a - nxt e)))
           else heap e a)"
  using assms
proof (induction ms arbitrary: i e)
  case Nil
  then show ?case by simp
next
  case (Cons m ms)
  let ?h1 = "(heap e)(nxt e := MCTSNode (bnxt e) (Some n) (Some m) (priors ! i))"
  let ?h2 = "?h1(n := (?h1 n)\<lparr> children := children (?h1 n) @ [nxt e] \<rparr>)"
  let ?e1 = "e\<lparr> boards := (boards e)(bnxt e := makeMove (zob env) (boards e (board (heap e n))) m),
                 bnxt := bnxt e + 1, heap := ?h2, nxt := nxt e + 1 \<rparr>"
  have step: "expand_loop env n priors i (m # ms) e = expand_loop env n priors (Suc i) ms ?e1"
    by (simp add: Let_def)
  have n1: "n < nxt ?e1" using Cons.prems by simp
  have upt: "[nxt e ..< nxt e + length (m # ms)] = nxt e # [nxt e + 1 ..< nxt e + 1 + length ms]"
    by (subst upt_rec) simp
  show ?case
    unfolding step Cons.IH [OF n1] upt
    using Cons.prems
    by (auto simp: nth_Cons' MCTSNode_def intro!: arg_cong [where f = "(!) priors"])
qed

lemma expand_fields:
  "root (expand env e n) = root e"
  "nodes (expand env e n) = nodes e"
  "startTime (expand env e n) = startTime e"
  "stopTime (expand env e n) = stopTime e"
  "stopSearch (expand env e n) = stopSearch e"
  "nxt e \<le> nxt (expand env e n)"
  by (simp_all add: expand_def Let_def expand_loop_fields)

lemma expand_heap:
  assumes "n < nxt e"
  shows "heap (expand env e n) a =
    (if isExpanded (heap e n) then heap e a
     else if generate env (boards e (board (heap e n))) = []
     then (if a = n then (heap e n)\<lparr> isTerminal := True, terminalValue := - MATE_SCORE \<rparr> else heap e a)
     else (if a = n
           then (heap e n)\<lparr> children := children (heap e n)
                    @ [nxt e ..< nxt e + length (generate env (boards e (board (heap e n))))],
                  isExpanded := True \<rparr>
           else if nxt e \<le> a \<and> a < nxt e + length (generate env (boards e (board (heap e n))))
           then MCTSNode (bnxt e + (a - nxt e)) (Some n)
                  (Some (generate env (boards e (board (heap e n))) ! (a - nxt e)))
                  (getMovePolicy env (boards e (board (heap e n)))
                     (generate env (boards e (board (heap e n)))) ! (0 + (a - nxt e)))
           else heap e a))"
  by (simp add: expand_def Let_def expand_loop_heap [OF assms])

lemma expand_nxt:
  "nxt (expand env e n) =
    (if isExpanded (heap e n) then nxt e
     else nxt e + length (generate env (boards e (board (heap e n)))))"
  by (simp add: expand_def Let_def expand_loop_fields)

lemma expand_old:
  assumes "n < nxt e" and "a < nxt e"
  shows "parent (heap (expand env e n) a) = parent (heap e a)"
    and "visitCount (heap (expand env e n) a) = visitCount (heap e a)"
    and "totalValue (heap (expand env e n) a) = totalValue (heap e a)"
    and "a \<noteq> n \<Longrightarrow> heap (expand env e n) a = heap e a"
  using assms(2) by (simp_all add: expand_heap [OF assms(1)])

lemma expand_new:
  assumes "n < nxt e" and "nxt e \<le> a" and "a < nxt (expand env e n)"
  shows "parent (heap (expand env e n) a) = Some n"
    and "visitCount (heap (expand env e n) a) = 0"
    and "children (heap (expand env e n) a) = []"
proof -
  let ?ms = "generate env (boards e (board (heap e n)))"
  from assms(2,3) have ne: "\<not> isExpanded (heap e n)" "?ms \<noteq> []" "a < nxt e + length ?ms"
    by (auto simp: expand_nxt split: if_splits)
  have an: "a \<noteq> n" using assms(1,2) by simp
  have "heap (expand env e n) a = MCTSNode (bnxt e + (a - nxt e)) (Some n)
                  (Some (?ms ! (a - nxt e))) (getMovePolicy env (boards e (board (heap e n))) ?ms ! (0 + (a - nxt e)))"
    using ne an assms(2) by (simp add: expand_heap [OF assms(1)])
  then show "parent (heap (expand env e n) a) = Some n"
    and "visitCount (heap (expand env e n) a) = 0"
    and "children (heap (expand env e n) a) = []"
    by (simp_all add: MCTSNode_def)
qed

lemma expand_children:
  assumes "n < nxt e"
  shows "children (heap (expand env e n) n) = children (heap e n) @ [nxt e ..< nxt (expand env e n)]"
  by (simp add: expand_heap [OF assms] expand_nxt)

lemma wf_treeD:
  assumes "wf_tree e" and "n < nxt e" and "c \<in> set (children (heap e n))"
  shows "n < c" and "c < nxt e" and "parent (heap e c) = Some n"
  using assms unfolding wf_tree_def by blast+

lemma wf_tree_rootD:
  assumes "wf_tree e" and "root e = Some r"
  shows "r < nxt e" and "parent (heap e r) = None"
  using assms unfolding wf_tree_def by blast+

lemma wf_treeI:
  assumes "\<And>r. root e = Some r \<Longrightarrow> r < nxt e \<and> parent (heap e r) = None"
    and "\<And>n c. n < nxt e \<Longrightarrow> c \<in> set (children (heap e n)) \<Longrightarrow>
           n < c \<and> c < nxt e \<and> parent (heap e c) = Some n"
  shows "wf_tree e"
  using assms unfolding wf_tree_def by blast

lemma expand_wf:
  assumes "wf_tree e" and "n < nxt e"
  shows "wf_tree (expand env e n)"
proof (rule wf_treeI)
  let ?e' = "expand env e n"
  have le: "nxt e \<le> nxt ?e'" by (rule expand_fields)
  {
    fix r assume "root ?e' = Some r"
    then have r: "root e = Some r" by (simp add: expand_fields)
    have "r < nxt e" "parent (heap e r) = None"
      using wf_tree_rootD [OF assms(1) r] by simp_all
    moreover have "parent (heap ?e' r) = parent (heap e r)"
      using expand_old(1) [OF assms(2) \<open>r < nxt e\<close>] .
    ultimately show "r < nxt ?e' \<and> parent (heap ?e' r) = None"
      using le by simp
  }
  {
    fix m c assume m: "m < nxt ?e'" and c: "c \<in> set (children (heap ?e' m))"
    show "m < c \<and> c < nxt ?e' \<and> parent (heap ?e' c) = Some m"
    proof (cases "m < nxt e")
      case False
      then have "children (heap ?e' m) = []"
        using expand_new(3) [OF assms(2) _ m] by simp
      with c show ?thesis by simp
    next
      case True
      show ?thesis
      proof (cases "m = n")
        case mn: True
        have "set (children (heap ?e' n)) = set (children (heap e n)) \<union> {nxt e ..< nxt ?e'}"
          by (simp add: expand_children [OF assms(2)])
        with c mn consider "c \<in> set (children (heap e n))" | "nxt e \<le> c" "c < nxt ?e'"
          by auto
        then show ?thesis
        proof cases
          case 1
          have f: "n < c" "c < nxt e" "parent (heap e c) = Some n"
            using wf_treeD [OF assms(1) assms(2) 1] by simp_all
          have "parent (heap ?e' c) = parent (heap e c)"
            using expand_old(1) [OF assms(2) f(2)] .
          with f mn le show ?thesis by simp
        next
          case 2
          have "parent (heap ?e' c) = Some n"
            using expand_new(1) [OF assms(2) 2] .
          with 2 mn assms(2) show ?thesis by simp
        qed
      next
        case False
        have "heap ?e' m = heap e m"
          using expand_old(4) [OF assms(2) True False] .
        with c have c': "c \<in> set (children (heap e m))" by simp
        have f: "m < c" "c < nxt e" "parent (heap e c) = Some m"
          using wf_treeD [OF assms(1) True c'] by simp_all
        have "parent (heap ?e' c) = parent (heap e c)"
          using expand_old(1) [OF assms(2) f(2)] .
        with f le show ?thesis by simp
      qed
    qed
  }
qed

section \<open>Selection follows the tree\<close>

lemma path_upI:
  assumes "ps \<noteq> []"
    and "\<forall>i. Suc i < length ps \<longrightarrow> parent (h (ps ! i)) = Some (ps ! Suc i)"
    and "parent (h (last ps)) = None"
  shows "path_up h ps"
  using assms
proof (induction ps)
  case Nil
  then show ?case by simp
next
  case (Cons n ps)
  show ?case
  proof (cases ps)
    case Nil
    with Cons.prems show ?thesis by simp
  next
    case (Cons p qs)
    have "parent (h n) = Some p"
      using Cons.prems(2) [rule_format, of 0] Cons by simp
    moreover have "path_up h ps"
    proof (rule Cons.IH)
      show "ps \<noteq> []" using Cons by simp
      show "\<forall>i. Suc i < length ps \<longrightarrow> parent (h (ps ! i)) = Some (ps ! Suc i)"
      proof (intro allI impI)
        fix i assume "Suc i < length ps"
        then show "parent (h (ps ! i)) = Some (ps ! Suc i)"
          using Cons.prems(2) [rule_format, of "Suc i"] by simp
      qed
      show "parent (h (last ps))= None" using Cons.prems(3) Cons by simp
    qed
    ultimately show ?thesis using Cons by simp
  qed
qed

lemma selectPath_total:
  assumes W: "\<forall>m < N. \<forall>c \<in> set (children (h m)). m < c \<and> c < N \<and> parent (h c) = Some m"
    and "n < N"
  shows "\<exists>ps. selectPath cfg bs h n = Some ps \<and> ps \<noteq> [] \<and> last ps = n \<and>
           selectLeaf cfg bs h n = Some (Some (hd ps)) \<and>
           (\<forall>a \<in> set ps. a < N) \<and>
           (\<forall>i. Suc i < length ps \<longrightarrow> parent (h (ps ! i)) = Some (ps ! Suc i)) \<and>
           \<not> (isExpanded (h (hd ps)) \<and> children (h (hd ps)) \<noteq> [])"
  using assms(2)
proof (induction "N - n" arbitrary: n rule: less_induct)
  case less
  show ?case
  proof (cases "isExpanded (h n) \<and> children (h n) \<noteq> []")
    case False
    have "selectPath cfg bs h n = Some [n]"
      using False by (subst selectPath.simps) auto
    moreover have "selectLeaf cfg bs h n = Some (Some n)"
      using False by (subst selectLeaf.simps) auto
    ultimately show ?thesis using False less.prems by simp
  next
    case True
    then have ne: "children (h n) \<noteq> []" by simp
    from selectChild_Some [of h n cfg bs, OF ne] obtain c where
      c: "selectChild cfg bs h n = Some c" "c \<in> set (children (h n))"
      by (metis nth_mem)
    from W less.prems c(2) have cn: "n < c" "c < N" "parent (h c) = Some n"
      by blast+
    have "N - c < N - n" using cn less.prems by simp
    from less.hyps [OF this cn(2)] obtain ps where ps:
      "selectPath cfg bs h c = Some ps" "ps \<noteq> []" "last ps = c"
      "selectLeaf cfg bs h c = Some (Some (hd ps))" "\<forall>a \<in> set ps. a < N"
      "\<forall>i. Suc i < length ps \<longrightarrow> parent (h (ps ! i)) = Some (ps ! Suc i)"
      "\<not> (isExpanded (h (hd ps)) \<and> children (h (hd ps)) \<noteq> [])"
      by blast
    have sp: "selectPath cfg bs h n = Some (ps @ [n])"
      using True c(1) ps(1,2) by (subst selectPath.simps) simp
    have sl: "selectLeaf cfg bs h n = Some (Some (hd ps))"
      using True c(1) ps(4) by (subst selectLeaf.simps) simp
    have link: "\<forall>i. Suc i < length (ps @ [n]) \<longrightarrow> parent (h ((ps @ [n]) ! i)) = Some ((ps @ [n]) ! Suc i)"
    proof (intro allI impI)
      fix i assume i: "Suc i < length (ps @ [n])"
      show "parent (h ((ps @ [n]) ! i)) = Some ((ps @ [n]) ! Suc i)"
      proof (cases "Suc i < length ps")
        case True
        then show ?thesis using ps(6) by (simp add: nth_append)
      next
        case False
        with i have e: "Suc i = length ps" by simp
        then have "i = length ps - 1" by simp
        then have "(ps @ [n]) ! i = last ps" using ps(2) e by (simp add: nth_append last_conv_nth)
        moreover have "(ps @ [n]) ! Suc i = n" using e by (simp add: nth_append)
        ultimately show ?thesis using ps(3) cn(3) by simp
      qed
    qed
    show ?thesis
      using sp sl ps(2,5,7) less.prems link by (intro exI [of _ "ps @ [n]"]) simp
  qed
qed

lemma path_up_cong_on:
  "(\<And>a. a \<in> set ps \<Longrightarrow> parent (h' a) = parent (h a)) \<Longrightarrow> path_up h' ps = path_up h ps"
proof (induction ps)
  case Nil
  then show ?case by simp
next
  case (Cons n ps)
  then show ?case by (cases ps) auto
qed

lemma expand_loop_nodes:
  "heap (expand_loop env n priors i ms e) = heap (expand_loop env n priors i ms (e\<lparr> nodes := k \<rparr>))
   \<and> nxt (expand_loop env n priors i ms e) = nxt (expand_loop env n priors i ms (e\<lparr> nodes := k \<rparr>))"
proof (induction ms arbitrary: i e)
  case Nil
  then show ?case by simp
next
  case (Cons m ms)
  let ?st = "\<lambda>e. e\<lparr> boards := (boards e)(bnxt e := makeMove (zob env) (boards e (board (heap e n))) m),
              bnxt := bnxt e + 1,
              heap := ((heap e)(nxt e := MCTSNode (bnxt e) (Some n) (Some m) (priors ! i)))
                        (n := (((heap e)(nxt e := MCTSNode (bnxt e) (Some n) (Some m) (priors ! i))) n)
                          \<lparr> children := children (((heap e)(nxt e := MCTSNode (bnxt e) (Some n) (Some m) (priors ! i))) n) @ [nxt e] \<rparr>),
              nxt := nxt e + 1 \<rparr>"
  have s1: "expand_loop env n priors i (m # ms) e = expand_loop env n priors (Suc i) ms (?st e)" for e
    by (simp add: Let_def)
  have c: "?st (e\<lparr> nodes := k \<rparr>) = (?st e)\<lparr> nodes := k \<rparr>"
    by simp
  show ?case
    unfolding s1 c using Cons.IH [of "Suc i" "?st e"] by simp
qed

lemma expand_nodes:
  "heap (expand env (e\<lparr> nodes := k \<rparr>) n) = heap (expand env e n)"
  "nxt (expand env (e\<lparr> nodes := k \<rparr>) n) = nxt (expand env e n)"
proof -
  have l: "heap (expand_loop env n ps 0 ms (e\<lparr> nodes := k \<rparr>)) = heap (expand_loop env n ps 0 ms e)"
     "nxt (expand_loop env n ps 0 ms (e\<lparr> nodes := k \<rparr>)) = nxt (expand_loop env n ps 0 ms e)" for ps ms
    using expand_loop_nodes [of env n ps 0 ms e k] by simp_all
  show "heap (expand env (e\<lparr> nodes := k \<rparr>) n) = heap (expand env e n)"
    by (simp add: expand_def Let_def l)
  show "nxt (expand env (e\<lparr> nodes := k \<rparr>) n) = nxt (expand env e n)"
    by (simp add: expand_def Let_def l)
qed

lemma backpropagate_from_path:
  assumes "path_up (heap e) qs"
  shows "\<exists>h'. backpropagate_from e (hd qs) v = Some (Inr (e\<lparr> heap := h' \<rparr>)) \<and>
           (\<forall>a. visitCount (h' a) = visitCount (heap e a) + (if a \<in> set qs then 1 else 0)) \<and>
           (\<forall>a. parent (h' a) = parent (heap e a) \<and> children (h' a) = children (heap e a))"
proof -
  from backpropagate_path_aux [OF assms, of v] obtain h' where h':
    "backpropagate (heap e) (hd qs) v = Some h'"
    "\<forall>i < length qs. h' (qs ! i) = bump (heap e (qs ! i)) (v * (-1) ^ i)"
    "\<forall>a. a \<notin> set qs \<longrightarrow> h' a = heap e a"
    by blast
  have on: "\<exists>w. h' a = bump (heap e a) w" if "a \<in> set qs" for a
  proof -
    from that obtain i where "i < length qs" "qs ! i = a" by (auto simp: in_set_conv_nth)
    with h'(2) show ?thesis by auto
  qed
  have vc: "visitCount (h' a) = visitCount (heap e a) + (if a \<in> set qs then 1 else 0)" for a
  proof (cases "a \<in> set qs")
    case True
    with on obtain w where "h' a = bump (heap e a) w" by blast
    with True show ?thesis by (simp add: bump_def)
  next
    case False
    with h'(3) show ?thesis by simp
  qed
  have sh: "parent (h' a) = parent (heap e a) \<and> children (h' a) = children (heap e a)" for a
  proof (cases "a \<in> set qs")
    case True
    with on obtain w where "h' a = bump (heap e a) w" by blast
    then show ?thesis by (simp add: bump_def)
  next
    case False
    with h'(3) show ?thesis by simp
  qed
  show ?thesis
    using h'(1) vc sh by (intro exI [of _ h']) (simp add: backpropagate_from_def)
qed

lemma wf_tree_heap_update:
  assumes "wf_tree e"
    and "\<forall>a. parent (h' a) = parent (heap e a) \<and> children (h' a) = children (heap e a)"
  shows "wf_tree (e\<lparr> heap := h' \<rparr>)"
proof (rule wf_treeI)
  fix r assume "root (e\<lparr> heap := h' \<rparr>) = Some r"
  then have "root e = Some r" by simp
  from wf_tree_rootD [OF assms(1) this] assms(2)
  show "r < nxt (e\<lparr> heap := h' \<rparr>) \<and> parent (heap (e\<lparr> heap := h' \<rparr>) r) = None"
    by simp
next
  fix n c assume "n < nxt (e\<lparr> heap := h' \<rparr>)" and "c \<in> set (children (heap (e\<lparr> heap := h' \<rparr>) n))"
  then have n: "n < nxt e" and c: "c \<in> set (children (heap e n))"
    using assms(2) by simp_all
  from wf_treeD [OF assms(1) n c] assms(2)
  show "n < c \<and> c < nxt (e\<lparr> heap := h' \<rparr>) \<and> parent (heap (e\<lparr> heap := h' \<rparr>) c) = Some n"
    by simp
qed

lemma wf_tree_nodes: "wf_tree (e\<lparr> nodes := k \<rparr>) = wf_tree e"
  unfolding wf_tree_def by simp

section \<open>Visit counts\<close>

lemma runSimulation_step:
  assumes wf: "wf_tree e" and r: "root e = Some r"
  shows "\<exists>e' p. runSimulation cfg env e = Some (Inr e') \<and> simulationPath cfg env e = Some p \<and>
           wf_tree e' \<and> root e' = root e \<and> nxt e \<le> nxt e' \<and> (\<forall>a \<in> set p. a < nxt e') \<and>
           (\<forall>a < nxt e'. visitCount (heap e' a)
               = (if a < nxt e then visitCount (heap e a) else 0) + (if a \<in> set p then 1 else 0))"
proof -
  have rN: "r < nxt e" and rp: "parent (heap e r) = None"
    using wf_tree_rootD [OF wf r] by simp_all
  have W: "\<forall>m < nxt e. \<forall>c \<in> set (children (heap e m)). m < c \<and> c < nxt e \<and> parent (heap e c) = Some m"
    using wf unfolding wf_tree_def by blast
  from selectPath_total [OF W rN, of cfg "boards e"] obtain ps where ps:
    "selectPath cfg (boards e) (heap e) r = Some ps" "ps \<noteq> []" "last ps = r"
    "selectLeaf cfg (boards e) (heap e) r = Some (Some (hd ps))" "\<forall>a \<in> set ps. a < nxt e"
    "\<forall>i. Suc i < length ps \<longrightarrow> parent (heap e (ps ! i)) = Some (ps ! Suc i)"
    by blast
  define leaf where "leaf = hd ps"
  obtain up where pl: "ps = leaf # up" using ps(2) leaf_def by (cases ps) auto
  have lN: "leaf < nxt e" using ps(5) pl by simp
  have pu: "path_up (heap e) ps"
    using path_upI [OF ps(2) ps(6)] rp ps(3) by simp
  define e1 where "e1 = e\<lparr> nodes := nodes e + 1 \<rparr>"
  have e1: "heap e1 = heap e" "boards e1 = boards e" "nxt e1 = nxt e" "root e1 = root e"
    by (simp_all add: e1_def)
  have wf1: "wf_tree e1" using wf by (simp add: e1_def wf_tree_nodes)
  have RS: "runSimulation cfg env e =
     (if isTerminal (heap e leaf) then backpropagate_from e1 leaf (terminalValue (heap e leaf))
      else if minVisitsForExpansion cfg \<le> visitCount (heap e leaf) \<and> \<not> isExpanded (heap e leaf) then
        (let e2 = expand env e1 leaf in
         if isTerminal (heap e2 leaf) then backpropagate_from e2 leaf (terminalValue (heap e2 leaf))
         else (let node' = (if children (heap e2 leaf) \<noteq> [] then hd (children (heap e2 leaf)) else leaf)
               in backpropagate_from e2 node' (evaluatePosition env (boards e2 (board (heap e2 node'))))))
      else backpropagate_from e1 leaf (evaluatePosition env (boards e (board (heap e leaf)))))"
    using r ps(4) by (simp add: runSimulation_def leaf_def e1_def Let_def)
  have SP: "simulationPath cfg env e =
     (if \<not> isTerminal (heap e leaf) \<and> minVisitsForExpansion cfg \<le> visitCount (heap e leaf)
          \<and> \<not> isExpanded (heap e leaf) \<and> generate env (boards e (board (heap e leaf))) \<noteq> []
      then Some (hd (children (heap (expand env e leaf) leaf)) # ps) else Some ps)"
    using r ps(1) pl by (simp add: simulationPath_def)
  \<comment> \<open>backpropagation along the unchanged selection path in \<open>e1\<close>\<close>
  have plain: "\<exists>e' p. backpropagate_from e1 leaf v = Some (Inr e') \<and> Some ps = Some p \<and>
           wf_tree e' \<and> root e' = root e \<and> nxt e \<le> nxt e' \<and> (\<forall>a \<in> set p. a < nxt e') \<and>
           (\<forall>a < nxt e'. visitCount (heap e' a)
               = (if a < nxt e then visitCount (heap e a) else 0) + (if a \<in> set p then 1 else 0))" for v
  proof -
    have "path_up (heap e1) ps" using pu e1 by simp
    from backpropagate_from_path [OF this, of v] obtain h' where h':
      "backpropagate_from e1 (hd ps) v = Some (Inr (e1\<lparr> heap := h' \<rparr>))"
      "\<forall>a. visitCount (h' a) = visitCount (heap e1 a) + (if a \<in> set ps then 1 else 0)"
      "\<forall>a. parent (h' a) = parent (heap e1 a) \<and> children (h' a) = children (heap e1 a)"
      by blast
    have "wf_tree (e1\<lparr> heap := h' \<rparr>)" using wf_tree_heap_update [OF wf1 h'(3)] .
    then show ?thesis
      using h'(1,2) e1 ps(5) by (intro exI [of _ "e1\<lparr> heap := h' \<rparr>"] exI [of _ ps]) (simp add: leaf_def)
  qed
  show ?thesis
  proof (cases "isTerminal (heap e leaf)")
    case True
    then show ?thesis using RS SP plain [of "terminalValue (heap e leaf)"] by simp
  next
    case nt: False
    show ?thesis
    proof (cases "minVisitsForExpansion cfg \<le> visitCount (heap e leaf) \<and> \<not> isExpanded (heap e leaf)")
      case False
      then show ?thesis
        using nt RS SP plain [of "evaluatePosition env (boards e (board (heap e leaf)))"] by auto
    next
      case ex: True
      define e2 where "e2 = expand env e1 leaf"
      have l1: "leaf < nxt e1" using lN e1 by simp
      have wf2: "wf_tree e2" unfolding e2_def by (rule expand_wf [OF wf1 l1])
      have le2: "nxt e \<le> nxt e2" using expand_fields(6) [of e1 env leaf] e1 by (simp add: e2_def)
      have root2: "root e2 = root e" by (simp add: e2_def expand_fields e1)
      have par2: "parent (heap e2 a) = parent (heap e a)" if "a < nxt e" for a
        using expand_old(1) [OF l1, of a env] that e1 by (simp add: e2_def)
      have vc2: "visitCount (heap e2 a) = (if a < nxt e then visitCount (heap e a) else 0)" if "a < nxt e2" for a
      proof (cases "a < nxt e")
        case True
        then show ?thesis using expand_old(2) [OF l1, of a env] e1 by (simp add: e2_def)
      next
        case False
        then show ?thesis using expand_new(2) [OF l1, of a env] that e1 by (simp add: e2_def)
      qed
      have pu2: "path_up (heap e2) ps"
        using path_up_cong_on [of ps "heap e2" "heap e"] par2 ps(5) pu by simp
      have h2: "heap e2 = heap (expand env e leaf)"
        unfolding e2_def e1_def by (rule expand_nodes)
      have hl: "heap e2 leaf =
          (if generate env (boards e (board (heap e leaf))) = []
           then (heap e leaf)\<lparr> isTerminal := True, terminalValue := - MATE_SCORE \<rparr>
           else (heap e leaf)\<lparr> children := children (heap e leaf)
                    @ [nxt e ..< nxt e + length (generate env (boards e (board (heap e leaf))))],
                  isExpanded := True \<rparr>)"
        unfolding h2 using ex by (simp add: expand_heap [OF lN])
      have RS2: "runSimulation cfg env e =
         (if isTerminal (heap e2 leaf) then backpropagate_from e2 leaf (terminalValue (heap e2 leaf))
          else (let node' = (if children (heap e2 leaf) \<noteq> [] then hd (children (heap e2 leaf)) else leaf)
                in backpropagate_from e2 node' (evaluatePosition env (boards e2 (board (heap e2 node'))))))"
        using RS nt ex by (simp add: e2_def Let_def)
      show ?thesis
      proof (cases "generate env (boards e (board (heap e leaf))) = []")
        case True
        then have t2: "isTerminal (heap e2 leaf)" using hl by simp
        from backpropagate_from_path [OF pu2, of "terminalValue (heap e2 leaf)"] obtain h' where h':
          "backpropagate_from e2 (hd ps) (terminalValue (heap e2 leaf)) = Some (Inr (e2\<lparr> heap := h' \<rparr>))"
          "\<forall>a. visitCount (h' a) = visitCount (heap e2 a) + (if a \<in> set ps then 1 else 0)"
          "\<forall>a. parent (h' a) = parent (heap e2 a) \<and> children (h' a) = children (heap e2 a)"
          by blast
        have w: "wf_tree (e2\<lparr> heap := h' \<rparr>)" using wf_tree_heap_update [OF wf2 h'(3)] .
        have rs: "runSimulation cfg env e = Some (Inr (e2\<lparr> heap := h' \<rparr>))"
          using RS2 t2 h'(1) by (simp add: leaf_def)
        have sp: "simulationPath cfg env e = Some ps" using SP True by simp
        have "\<forall>a < nxt e2. visitCount (h' a)
               = (if a < nxt e then visitCount (heap e a) else 0) + (if a \<in> set ps then 1 else 0)"
          using h'(2) vc2 by simp
        moreover have "\<forall>a \<in> set ps. a < nxt e2" using ps(5) le2 by auto
        ultimately show ?thesis
          using rs sp w root2 le2 by (intro exI [of _ "e2\<lparr> heap := h' \<rparr>"] exI [of _ ps]) simp
      next
        case False
        then have nt2: "\<not> isTerminal (heap e2 leaf)" and ch: "children (heap e2 leaf) \<noteq> []"
          using hl nt by simp_all
        define g where "g = hd (children (heap e2 leaf))"
        have gin: "g \<in> set (children (heap e2 leaf))" using ch by (simp add: g_def)
        have l2: "leaf < nxt e2" using lN le2 by simp
        have gp: "parent (heap e2 g) = Some leaf"
          using wf_treeD(3) [OF wf2 l2 gin] .
        have pug: "path_up (heap e2) (g # ps)"
          using pu2 gp pl by simp
        from backpropagate_from_path [OF pug, of "evaluatePosition env (boards e2 (board (heap e2 g)))"]
        obtain h' where h':
          "backpropagate_from e2 (hd (g # ps)) (evaluatePosition env (boards e2 (board (heap e2 g))))
             = Some (Inr (e2\<lparr> heap := h' \<rparr>))"
          "\<forall>a. visitCount (h' a) = visitCount (heap e2 a) + (if a \<in> set (g # ps) then 1 else 0)"
          "\<forall>a. parent (h' a) = parent (heap e2 a) \<and> children (h' a) = children (heap e2 a)"
          by blast
        have w: "wf_tree (e2\<lparr> heap := h' \<rparr>)" using wf_tree_heap_update [OF wf2 h'(3)] .
        have rs: "runSimulation cfg env e = Some (Inr (e2\<lparr> heap := h' \<rparr>))"
          using RS2 nt2 ch h'(1) by (simp add: g_def Let_def)
        have sp: "simulationPath cfg env e = Some (g # ps)"
          using SP False nt ex by (simp add: g_def h2)
        have "\<forall>a < nxt e2. visitCount (h' a)
               = (if a < nxt e then visitCount (heap e a) else 0) + (if a \<in> set (g # ps) then 1 else 0)"
          using h'(2) vc2 by simp
        moreover have "\<forall>a \<in> set (g # ps). a < nxt e2"
          using ps(5) le2 wf_treeD(2) [OF wf2 l2 gin] by auto
        ultimately show ?thesis
          using rs sp w root2 le2 by (intro exI [of _ "e2\<lparr> heap := h' \<rparr>"] exI [of _ "g # ps"]) simp
      qed
    qed
  qed
qed


lemma simulate_counts:
  assumes "wf_tree e" and "root e = Some r"
  shows "\<exists>ps e'. simulate cfg env k e = Some (ps, e') \<and> length ps = k \<and>
           wf_tree e' \<and> root e' = root e \<and> nxt e \<le> nxt e' \<and>
           (\<forall>p \<in> set ps. \<forall>a \<in> set p. a < nxt e') \<and>
           (\<forall>a < nxt e'. visitCount (heap e' a)
               = (if a < nxt e then visitCount (heap e a) else 0) + length (filter (\<lambda>p. a \<in> set p) ps))"
proof (induction k)
  case 0
  then show ?case using assms by simp
next
  case (Suc k)
  then obtain ps e' where ih:
    "simulate cfg env k e = Some (ps, e')" "length ps = k" "wf_tree e'" "root e' = root e"
    "nxt e \<le> nxt e'" "\<forall>p \<in> set ps. \<forall>a \<in> set p. a < nxt e'"
    "\<forall>a < nxt e'. visitCount (heap e' a)
        = (if a < nxt e then visitCount (heap e a) else 0) + length (filter (\<lambda>p. a \<in> set p) ps)"
    by blast
  have r': "root e' = Some r" using ih(4) assms(2) by simp
  from runSimulation_step [OF ih(3) r', of cfg env] obtain e'' p where st:
    "runSimulation cfg env e' = Some (Inr e'')" "simulationPath cfg env e' = Some p"
    "wf_tree e''" "root e'' = root e'" "nxt e' \<le> nxt e''" "\<forall>a \<in> set p. a < nxt e''"
    "\<forall>a < nxt e''. visitCount (heap e'' a)
        = (if a < nxt e' then visitCount (heap e' a) else 0) + (if a \<in> set p then 1 else 0)"
    by blast
  have sim: "simulate cfg env (Suc k) e = Some (ps @ [p], e'')"
    using ih(1) st(1,2) by simp
  have rng: "\<forall>q \<in> set (ps @ [p]). \<forall>a \<in> set q. a < nxt e''"
    using ih(6) st(5,6) by fastforce
  have cnt: "visitCount (heap e'' a)
        = (if a < nxt e then visitCount (heap e a) else 0) + length (filter (\<lambda>q. a \<in> set q) (ps @ [p]))"
    if a: "a < nxt e''" for a
  proof (cases "a < nxt e'")
    case True
    then show ?thesis using st(7) a ih(7) by simp
  next
    case False
    then have "\<forall>q \<in> set ps. a \<notin> set q" using ih(6) by fastforce
    then have "filter (\<lambda>q. a \<in> set q) ps = []" by (simp add: filter_empty_conv)
    moreover have "\<not> a < nxt e" using False ih(5) by simp
    ultimately show ?thesis using st(7) a False by simp
  qed
  show ?case
    using sim ih(2) st(3,4,5) ih(4,5) rng cnt
    by (intro exI [of _ "ps @ [p]"] exI [of _ e'']) simp
qed

lemma march_board1:
  "turn (makeMove test_keys kk_board (plain_move 60 52)) = -1"
  "black (kings (makeMove test_keys kk_board (plain_move 60 52))) = 4"
  by (simp_all add: makeMove_def kk_board_def kk_squares_def plain_move_def Let_def sq_set_def
      getPieceType_def js_rem_def PIECES_defs)

lemma march_fields:
  "root (march_state k vc) = Some 0"
  "nxt (march_state k vc) = 2"
  "bnxt (march_state k vc) = 2"
  "nodes (march_state k vc) = k"
  "boards (march_state k vc) (Suc 0) = makeMove test_keys kk_board (plain_move 60 52)"
  "(march_state k vc)\<lparr> nodes := k' \<rparr> = march_state k' vc"
  "heap (march_state k vc) (Suc 0) = (MCTSNode 1 (Some 0) (Some (plain_move 60 52)) 1)\<lparr> visitCount := vc \<rparr>"
  "heap (march_state k vc) 0 = (MCTSNode 0 None None 0)\<lparr> children := [1], visitCount := vc, isExpanded := True \<rparr>"
  by (simp_all add: march_state_def)

lemma march_select:
  "selectPath cfg bs (heap (march_state k vc)) 0 = Some [Suc 0, 0]"
  "selectLeaf cfg bs (heap (march_state k vc)) 0 = Some (Some (Suc 0))"
  apply (subst selectPath.simps, simp add: march_state_def MCTSNode_def selectChild_def)
   apply (subst selectPath.simps, simp add: march_state_def MCTSNode_def selectChild_def)
  apply (subst selectLeaf.simps, simp add: march_state_def MCTSNode_def selectChild_def)
  apply (subst selectLeaf.simps, simp add: march_state_def MCTSNode_def selectChild_def)
  done

lemma march_wf: "wf_tree (march_state k vc)"
  by (simp add: wf_tree_def march_state_def MCTSNode_def numeral_2_eq_2 less_Suc_eq)

lemma march_value: "evaluatePosition march_env b = 0"
  by (simp add: evaluatePosition_def normalizeValue_def march_env_def)

lemma march_sim1:
  "runSimulation MCTS_CONFIG march_env (march_state k 0) = Some (Inr (march_state (Suc k) (Suc 0)))"
proof -
  let ?e = "march_state (Suc k) 0"
  have p: "path_up (heap ?e) [Suc 0, 0]"
    by (simp add: march_state_def MCTSNode_def)
  from backpropagate_path_aux [OF p, of 0] obtain h' where h':
    "backpropagate (heap ?e) (Suc 0) 0 = Some h'"
    "\<forall>i < 2. h' ([Suc 0, 0] ! i) = bump (heap ?e ([Suc 0, 0] ! i)) (0 * (-1) ^ i)"
    "\<forall>a. a \<notin> set [Suc 0, 0] \<longrightarrow> h' a = heap ?e a"
    by auto
  have h1: "h' (Suc 0) = bump (heap ?e (Suc 0)) 0"
    using h'(2) [rule_format, of 0] by simp
  have h0: "h' 0 = bump (heap ?e 0) 0"
    using h'(2) [rule_format, of 1] by simp
  have "h' a = heap (march_state (Suc k) (Suc 0)) a" for a
  proof -
    consider "a = 0" | "a = Suc 0" | "a \<notin> set [Suc 0, 0]" by auto
    then show ?thesis
    proof cases
      case 1
      then show ?thesis using h0 by (simp add: march_state_def MCTSNode_def bump_def)
    next
      case 2
      then show ?thesis using h1 by (simp add: march_state_def MCTSNode_def bump_def)
    next
      case 3
      then show ?thesis using h'(3) by (simp add: march_state_def MCTSNode_def)
    qed
  qed
  then have "h' = heap (march_state (Suc k) (Suc 0))" by (rule ext)
  with h'(1) have "backpropagate_from ?e (Suc 0) 0 = Some (Inr (march_state (Suc k) (Suc 0)))"
    by (simp add: backpropagate_from_def march_state_def)
  then show ?thesis
    by (simp add: runSimulation_def march_select Let_def MCTS_CONFIG_def march_value march_fields
        MCTSNode_def)
qed

text \<open>
  C9 (amended). Take a well-formed tree with a root and run \<open>k\<close> simulations on it. They all
  return, and afterwards the visit count of every allocated node is its count before them
  (zero for a node created since) plus the number of these simulations whose path passed
  through the node, where the path of a simulation is its selection path from the root
  together with the first child of the selected leaf when the simulation expanded that
  leaf. One more simulation also returns and lowers no count.
\<close>

theorem visitCount_counts_paths:
  assumes "wf_tree e" and "root e \<noteq> None"
  shows "\<exists>ps e'. simulate cfg env k e = Some (ps, e') \<and> length ps = k \<and>
           (\<forall>a < nxt e'. visitCount (heap e' a)
               = (if a < nxt e then visitCount (heap e a) else 0) + length (filter (\<lambda>p. a \<in> set p) ps)) \<and>
           (\<exists>p e''. runSimulation cfg env e' = Some (Inr e'') \<and>
                     simulate cfg env (Suc k) e = Some (ps @ [p], e'') \<and> nxt e' \<le> nxt e'' \<and>
                     (\<forall>a < nxt e'. visitCount (heap e' a) \<le> visitCount (heap e'' a)))"
proof -
  from assms(2) obtain r where r: "root e = Some r" by auto
  from simulate_counts [OF assms(1) r, of cfg env k] obtain ps e' where k:
    "simulate cfg env k e = Some (ps, e')" "length ps = k" "wf_tree e'" "root e' = root e"
    "\<forall>a < nxt e'. visitCount (heap e' a)
        = (if a < nxt e then visitCount (heap e a) else 0) + length (filter (\<lambda>p. a \<in> set p) ps)"
    by blast
  have r': "root e' = Some r" using k(4) r by simp
  from runSimulation_step [OF k(3) r', of cfg env] obtain e'' p where st:
    "runSimulation cfg env e' = Some (Inr e'')" "simulationPath cfg env e' = Some p"
    "nxt e' \<le> nxt e''"
    "\<forall>a < nxt e''. visitCount (heap e'' a)
        = (if a < nxt e' then visitCount (heap e' a) else 0) + (if a \<in> set p then 1 else 0)"
    by blast
  have sim: "simulate cfg env (Suc k) e = Some (ps @ [p], e'')"
    using k(1) st(1,2) by simp
  have mono: "\<forall>a < nxt e'. visitCount (heap e' a) \<le> visitCount (heap e'' a)"
    using st(3,4) by simp
  show ?thesis
    using k(1,2,5) st(1,3) sim mono by blast
qed

theorem visitCount_counts_paths_witness:
  "wf_tree (march_state 0 0) \<and> root (march_state 0 0) \<noteq> None \<and>
   (\<exists>ps e'. simulate MCTS_CONFIG march_env 2 (march_state 0 0) = Some (ps, e') \<and> length ps = 2 \<and>
           (\<forall>a < nxt e'. visitCount (heap e' a)
               = (if a < nxt (march_state 0 0) then visitCount (heap (march_state 0 0) a) else 0)
                   + length (filter (\<lambda>p. a \<in> set p) ps)) \<and>
           (\<exists>p e''. runSimulation MCTS_CONFIG march_env e' = Some (Inr e'') \<and>
                     simulate MCTS_CONFIG march_env (Suc 2) (march_state 0 0) = Some (ps @ [p], e'') \<and>
                     nxt e' \<le> nxt e'' \<and>
                     (\<forall>a < nxt e'. visitCount (heap e' a) \<le> visitCount (heap e'' a))))"
proof -
  have w: "wf_tree (march_state 0 0)" by (rule march_wf)
  have r: "root (march_state 0 0) \<noteq> None" by (simp add: march_fields)
  from visitCount_counts_paths [OF w r, of MCTS_CONFIG march_env 2] w r
  show ?thesis by simp
qed

text \<open>
  C9 as stated fails when "path" is read as the selection path alone. On the two-king tree
  the first simulation evaluates the root's child at address 1; the second selects the same
  child, expands it, and evaluates and backs up from the new node at address 2. Both
  selection paths are root and child, yet the new node ends with visit count 1.
\<close>

theorem visitCount_first_child_counterexample:
  "\<exists>e2. runSimulation MCTS_CONFIG march_env (march_state 0 0) = Some (Inr (march_state 1 1)) \<and>
        runSimulation MCTS_CONFIG march_env (march_state 1 1) = Some (Inr e2) \<and>
        selectPath MCTS_CONFIG (boards (march_state 0 0)) (heap (march_state 0 0)) 0 = Some [1, 0] \<and>
        selectPath MCTS_CONFIG (boards (march_state 1 1)) (heap (march_state 1 1)) 0 = Some [1, 0] \<and>
        nxt e2 = 3 \<and> parent (heap e2 2) = Some 1 \<and> visitCount (heap e2 2) = 1"
proof -
  let ?e1 = "march_state (Suc (Suc 0)) (Suc 0)"
  let ?e2 = "expand march_env ?e1 (Suc 0)"
  have n: "Suc 0 < nxt ?e1" by (simp add: march_fields)
  have g: "generate march_env (boards ?e1 (board (heap ?e1 (Suc 0)))) = [plain_move 4 12]"
    by (simp add: march_fields MCTSNode_def march_env_def march_board1)
  have x: "\<not> isExpanded (heap ?e1 (Suc 0))" "\<not> isTerminal (heap ?e1 (Suc 0))"
    "visitCount (heap ?e1 (Suc 0)) = Suc 0"
    "parent (heap ?e1 (Suc 0)) = Some 0" "parent (heap ?e1 0) = None"
    "children (heap ?e1 (Suc 0)) = []"
    by (simp_all add: march_fields MCTSNode_def)
  have pol: "getMovePolicy march_env b [m] = [1]" for b m
    by (simp add: march_env_def)
  have nx: "nxt ?e2 = 3"
    by (simp add: expand_nxt x g march_fields(1-6))
  have h2: "heap ?e2 2 = MCTSNode 2 (Some (Suc 0)) (Some (plain_move 4 12)) 1"
    by (simp add: expand_heap [OF n] x g march_fields(1-6) pol)
  have c: "children (heap ?e2 (Suc 0)) = [2]" "\<not> isTerminal (heap ?e2 (Suc 0))"
    by (simp_all add: expand_heap [OF n] x g march_fields(1-6))
  have p1: "parent (heap ?e2 (Suc 0)) = Some 0"
    using expand_old(1) [OF n, of "Suc 0" march_env] x n by simp
  have p0: "parent (heap ?e2 0) = None"
    using expand_old(1) [OF n, of 0 march_env] x by (simp add: march_fields)
  have p: "path_up (heap ?e2) [2, Suc 0, 0]"
    using h2 p1 p0 by (simp add: MCTSNode_def)
  from backpropagate_from_path [OF p, of 0] obtain h' where h':
    "backpropagate_from ?e2 2 0 = Some (Inr (?e2\<lparr> heap := h' \<rparr>))"
    "\<forall>a. visitCount (h' a) = visitCount (heap ?e2 a) + (if a \<in> set [2, Suc 0, 0] then 1 else 0)"
    "\<forall>a. parent (h' a) = parent (heap ?e2 a) \<and> children (h' a) = children (heap ?e2 a)"
    by auto
  have v2: "visitCount (h' 2) = 1"
    using h'(2) [rule_format, of 2] h2 by (simp add: MCTSNode_def)
  have q2: "parent (h' 2) = Some 1"
    using h'(3) [rule_format, of 2] h2 by (simp add: MCTSNode_def)
  have s2: "runSimulation MCTS_CONFIG march_env (march_state (Suc 0) (Suc 0)) = Some (Inr (?e2\<lparr> heap := h' \<rparr>))"
    using x(1-3) c h'(1)
    by (simp add: runSimulation_def march_select Let_def MCTS_CONFIG_def march_value march_fields(1-6))
  have s1: "runSimulation MCTS_CONFIG march_env (march_state 0 0) = Some (Inr (march_state 1 1))"
    using march_sim1 [of 0] by simp
  show ?thesis
    using s1 s2 nx v2 q2 march_select(1) by simp
qed

section \<open>What a search carries over\<close>

lemma carried_overI:
  assumes "nxt e \<le> nxt e'" and "bnxt e \<le> bnxt e'"
    and "\<And>b. b < bnxt e \<Longrightarrow> boards e' b = boards e b"
    and "\<And>a. a < nxt e \<Longrightarrow>
        board (heap e' a) = board (heap e a) \<and>
        parent (heap e' a) = parent (heap e a) \<and>
        move (heap e' a) = move (heap e a) \<and>
        visitCount (heap e a) \<le> visitCount (heap e' a) \<and>
        (isExpanded (heap e a) \<longrightarrow>
           isExpanded (heap e' a) \<and> children (heap e' a) = children (heap e a)) \<and>
        (\<exists>new. children (heap e' a) = children (heap e a) @ new \<and> (\<forall>c \<in> set new. nxt e \<le> c))"
  shows "carried_over e e'"
  unfolding carried_over_def
proof (intro conjI allI impI)
  fix a assume a: "a < nxt e"
  from assms(4) [OF a] obtain new where new:
    "children (heap e' a) = children (heap e a) @ new" "\<forall>c \<in> set new. nxt e \<le> c"
    by blast
  show "take (length (children (heap e a))) (children (heap e' a)) = children (heap e a)"
    using new(1) by simp
  show "\<forall>c \<in> set (drop (length (children (heap e a))) (children (heap e' a))). nxt e \<le> c"
    using new by simp
  show "isExpanded (heap e' a)" if "isExpanded (heap e a)" using assms(4) [OF a] that by simp
  show "children (heap e' a) = children (heap e a)" if "isExpanded (heap e a)"
    using assms(4) [OF a] that by simp
qed (use assms in simp_all)

lemma carried_overD:
  assumes "carried_over e e'"
  shows "nxt e \<le> nxt e'" and "bnxt e \<le> bnxt e'"
    and "\<And>b. b < bnxt e \<Longrightarrow> boards e' b = boards e b"
    and "\<And>a. a < nxt e \<Longrightarrow>
        board (heap e' a) = board (heap e a) \<and>
        parent (heap e' a) = parent (heap e a) \<and>
        move (heap e' a) = move (heap e a) \<and>
        visitCount (heap e a) \<le> visitCount (heap e' a) \<and>
        (isExpanded (heap e a) \<longrightarrow>
           isExpanded (heap e' a) \<and> children (heap e' a) = children (heap e a)) \<and>
        (\<exists>new. children (heap e' a) = children (heap e a) @ new \<and> (\<forall>c \<in> set new. nxt e \<le> c))"
proof -
  show "nxt e \<le> nxt e'" "bnxt e \<le> bnxt e'" "\<And>b. b < bnxt e \<Longrightarrow> boards e' b = boards e b"
    using assms unfolding carried_over_def by simp_all
  fix a assume a: "a < nxt e"
  let ?cs = "children (heap e a)" and ?cs' = "children (heap e' a)"
  from assms a have f: "board (heap e' a) = board (heap e a)"
        "parent (heap e' a) = parent (heap e a)"
        "move (heap e' a) = move (heap e a)"
        "visitCount (heap e a) \<le> visitCount (heap e' a)"
        "isExpanded (heap e a) \<longrightarrow> isExpanded (heap e' a) \<and> ?cs' = ?cs"
        "take (length ?cs) ?cs' = ?cs"
        "\<forall>c \<in> set (drop (length ?cs) ?cs'). nxt e \<le> c"
    unfolding carried_over_def by blast+
  have "?cs' = ?cs @ drop (length ?cs) ?cs'"
    using append_take_drop_id [of "length ?cs" ?cs'] f(6) by simp
  with f(7) have "\<exists>new. ?cs' = ?cs @ new \<and> (\<forall>c \<in> set new. nxt e \<le> c)" by blast
  with f(1-5) show "board (heap e' a) = board (heap e a) \<and>
        parent (heap e' a) = parent (heap e a) \<and>
        move (heap e' a) = move (heap e a) \<and>
        visitCount (heap e a) \<le> visitCount (heap e' a) \<and>
        (isExpanded (heap e a) \<longrightarrow>
           isExpanded (heap e' a) \<and> children (heap e' a) = children (heap e a)) \<and>
        (\<exists>new. children (heap e' a) = children (heap e a) @ new \<and> (\<forall>c \<in> set new. nxt e \<le> c))"
    by blast
qed

lemma carried_over_refl: "carried_over e e"
  by (rule carried_overI) simp_all

lemma carried_over_trans:
  assumes "carried_over e e'" and "carried_over e' e''"
  shows "carried_over e e''"
proof (rule carried_overI)
  note a = carried_overD [OF assms(1)] and b = carried_overD [OF assms(2)]
  show "nxt e \<le> nxt e''" using a(1) b(1) by simp
  show "bnxt e \<le> bnxt e''" using a(2) b(2) by simp
  show "boards e'' x = boards e x" if "x < bnxt e" for x
    using a(3) [OF that] b(3) [of x] that a(2) by simp
  fix x assume x: "x < nxt e"
  then have x': "x < nxt e'" using a(1) by simp
  note p = a(4) [OF x] and q = b(4) [OF x']
  from p obtain n1 where n1: "children (heap e' x) = children (heap e x) @ n1" "\<forall>c \<in> set n1. nxt e \<le> c"
    by blast
  from q obtain n2 where n2: "children (heap e'' x) = children (heap e' x) @ n2" "\<forall>c \<in> set n2. nxt e' \<le> c"
    by blast
  have "children (heap e'' x) = children (heap e x) @ (n1 @ n2)" using n1(1) n2(1) by simp
  moreover have "\<forall>c \<in> set (n1 @ n2). nxt e \<le> c" using n1(2) n2(2) a(1) by auto
  ultimately have ex: "\<exists>new. children (heap e'' x) = children (heap e x) @ new \<and> (\<forall>c \<in> set new. nxt e \<le> c)"
    by blast
  from p q have "board (heap e'' x) = board (heap e x)" "parent (heap e'' x) = parent (heap e x)"
    "move (heap e'' x) = move (heap e x)" "visitCount (heap e x) \<le> visitCount (heap e'' x)"
    "isExpanded (heap e x) \<longrightarrow> isExpanded (heap e'' x) \<and> children (heap e'' x) = children (heap e x)"
    by auto
  with ex show "board (heap e'' x) = board (heap e x) \<and>
        parent (heap e'' x) = parent (heap e x) \<and>
        move (heap e'' x) = move (heap e x) \<and>
        visitCount (heap e x) \<le> visitCount (heap e'' x) \<and>
        (isExpanded (heap e x) \<longrightarrow>
           isExpanded (heap e'' x) \<and> children (heap e'' x) = children (heap e x)) \<and>
        (\<exists>new. children (heap e'' x) = children (heap e x) @ new \<and> (\<forall>c \<in> set new. nxt e \<le> c))"
    by blast
qed

lemma carried_over_fields:
  assumes "nxt e' = nxt e" and "bnxt e' = bnxt e" and "boards e' = boards e" and "heap e' = heap e"
  shows "carried_over e e'"
  by (rule carried_overI) (simp_all add: assms)

lemma backpropagate_stats:
  assumes "backpropagate h n v = Some h'"
  shows "\<exists>k w. h' a = (h a)\<lparr> visitCount := visitCount (h a) + k, totalValue := w \<rparr>"
  using assms
proof (induction h n v h' rule: backpropagate.raw_induct)
  case (1 bp h n v h')
  let ?h1 = "h(n := (h n)\<lparr> visitCount := visitCount (h n) + 1, totalValue := totalValue (h n) + v \<rparr>)"
  have one: "\<exists>k w. ?h1 a = (h a)\<lparr> visitCount := visitCount (h a) + k, totalValue := w \<rparr>"
  proof (cases "a = n")
    case True
    then show ?thesis by (intro exI [of _ 1] exI [of _ "totalValue (h n) + v"]) simp
  next
    case False
    then show ?thesis by (intro exI [of _ 0] exI [of _ "totalValue (h a)"]) simp
  qed
  show ?case
  proof (cases "parent (h n)")
    case None
    with 1(2) have "h' = ?h1" by (simp add: Let_def)
    with one show ?thesis by simp
  next
    case (Some p)
    with 1(2) have b1: "bp ?h1 p (- v) = Some h'" by (simp add: Let_def)
    from Some 1(3) have b2: "backpropagate ?h1 p (- v) = Some h'"
      by (subst (asm) backpropagate.simps) (simp add: Let_def)
    from 1(1) [OF b1 b2] obtain k w where
      kw: "h' a = (?h1 a)\<lparr> visitCount := visitCount (?h1 a) + k, totalValue := w \<rparr>"
      by blast
    from one obtain k1 w1 where
      k1: "?h1 a = (h a)\<lparr> visitCount := visitCount (h a) + k1, totalValue := w1 \<rparr>"
      by blast
    have "h' a = (h a)\<lparr> visitCount := visitCount (h a) + (k1 + k), totalValue := w \<rparr>"
      unfolding kw unfolding k1 by simp
    then show ?thesis by blast
  qed
qed (rule assms)

lemma stats_carried:
  assumes "\<And>a. \<exists>k w. h' a = (heap e a)\<lparr> visitCount := visitCount (heap e a) + k, totalValue := w \<rparr>"
  shows "carried_over e (e\<lparr> heap := h' \<rparr>)"
proof (rule carried_overI)
  fix a assume "a < nxt e"
  from assms [of a] obtain k w where
    "h' a = (heap e a)\<lparr> visitCount := visitCount (heap e a) + k, totalValue := w \<rparr>" by blast
  then show "board (heap (e\<lparr> heap := h' \<rparr>) a) = board (heap e a) \<and>
        parent (heap (e\<lparr> heap := h' \<rparr>) a) = parent (heap e a) \<and>
        move (heap (e\<lparr> heap := h' \<rparr>) a) = move (heap e a) \<and>
        visitCount (heap e a) \<le> visitCount (heap (e\<lparr> heap := h' \<rparr>) a) \<and>
        (isExpanded (heap e a) \<longrightarrow>
           isExpanded (heap (e\<lparr> heap := h' \<rparr>) a) \<and> children (heap (e\<lparr> heap := h' \<rparr>) a) = children (heap e a)) \<and>
        (\<exists>new. children (heap (e\<lparr> heap := h' \<rparr>) a) = children (heap e a) @ new \<and> (\<forall>c \<in> set new. nxt e \<le> c))"
    by simp
qed simp_all

lemma backpropagate_from_carried:
  assumes "backpropagate_from e n v = Some (Inr e')"
  shows "carried_over e e'" and "root e' = root e" and "nodes e' = nodes e"
    and "stopTime e' = stopTime e" and "stopSearch e' = stopSearch e"
proof -
  from assms obtain h' where h': "backpropagate (heap e) n v = Some h'" "e' = e\<lparr> heap := h' \<rparr>"
    by (auto simp: backpropagate_from_def)
  show "carried_over e e'"
    unfolding h'(2) by (rule stats_carried) (rule backpropagate_stats [OF h'(1)])
  show "root e' = root e" "nodes e' = nodes e" "stopTime e' = stopTime e" "stopSearch e' = stopSearch e"
    using h'(2) by simp_all
qed

lemma expand_loop_boards:
  "b < bnxt e \<Longrightarrow> boards (expand_loop env n priors i ms e) b = boards e b"
proof (induction ms arbitrary: i e)
  case Nil
  then show ?case by simp
next
  case (Cons m ms)
  let ?st = "e\<lparr> boards := (boards e)(bnxt e := makeMove (zob env) (boards e (board (heap e n))) m),
              bnxt := bnxt e + 1,
              heap := ((heap e)(nxt e := MCTSNode (bnxt e) (Some n) (Some m) (priors ! i)))
                        (n := (((heap e)(nxt e := MCTSNode (bnxt e) (Some n) (Some m) (priors ! i))) n)
                          \<lparr> children := children (((heap e)(nxt e := MCTSNode (bnxt e) (Some n) (Some m) (priors ! i))) n) @ [nxt e] \<rparr>),
              nxt := nxt e + 1 \<rparr>"
  have s1: "expand_loop env n priors i (m # ms) e = expand_loop env n priors (Suc i) ms ?st"
    by (simp add: Let_def)
  have "b < bnxt ?st" using Cons.prems by simp
  from Cons.IH [OF this, of "Suc i"] Cons.prems show ?case
    unfolding s1 by simp
qed

lemma expand_boards:
  "b < bnxt e \<Longrightarrow> boards (expand env e n) b = boards e b"
  "bnxt e \<le> bnxt (expand env e n)"
  by (simp_all add: expand_def Let_def expand_loop_boards expand_loop_fields)

lemma expand_carried:
  assumes n: "n < nxt e"
  shows "carried_over e (expand env e n)"
proof (rule carried_overI)
  show "nxt e \<le> nxt (expand env e n)" by (rule expand_fields)
  show "bnxt e \<le> bnxt (expand env e n)" by (rule expand_boards)
  show "boards (expand env e n) b = boards e b" if "b < bnxt e" for b
    using that by (rule expand_boards)
  fix a assume a: "a < nxt e"
  let ?ms = "generate env (boards e (board (heap e n)))"
  show "board (heap (expand env e n) a) = board (heap e a) \<and>
        parent (heap (expand env e n) a) = parent (heap e a) \<and>
        move (heap (expand env e n) a) = move (heap e a) \<and>
        visitCount (heap e a) \<le> visitCount (heap (expand env e n) a) \<and>
        (isExpanded (heap e a) \<longrightarrow>
           isExpanded (heap (expand env e n) a) \<and> children (heap (expand env e n) a) = children (heap e a)) \<and>
        (\<exists>new. children (heap (expand env e n) a) = children (heap e a) @ new \<and> (\<forall>c \<in> set new. nxt e \<le> c))"
  proof (cases "a = n")
    case False
    with expand_old(4) [OF n a, of env] show ?thesis by simp
  next
    case True
    show ?thesis
    proof (cases "isExpanded (heap e n)")
      case e: True
      then show ?thesis using True by (simp add: expand_heap [OF n])
    next
      case e: False
      show ?thesis
      proof (cases "?ms = []")
        case m: True
        then show ?thesis using True e by (simp add: expand_heap [OF n])
      next
        case m: False
        have "\<forall>c \<in> set [nxt e ..< nxt e + length ?ms]. nxt e \<le> c" by simp
        then show ?thesis using True e m by (simp add: expand_heap [OF n])
      qed
    qed
  qed
qed

lemma noise_blend_frame:
  "visitCount (noise_blend eps s cs noise h a) = visitCount (h a) \<and>
   parent (noise_blend eps s cs noise h a) = parent (h a) \<and>
   children (noise_blend eps s cs noise h a) = children (h a)"
  by (induction cs arbitrary: noise h) (simp_all add: Let_def)

lemma addDirichletNoise_frame:
  assumes "addDirichletNoise cfg rnd h n = Inr h'"
  shows "visitCount (h' a) = visitCount (h a)" and "parent (h' a) = parent (h a)"
    and "children (h' a) = children (h a)"
  using assms
  by (auto simp: addDirichletNoise_def Let_def noise_blend_frame split: if_splits)

lemma noise_blend_prior:
  "\<exists>p. noise_blend eps s cs noise h a = (h a)\<lparr> prior := p \<rparr>"
proof (induction cs arbitrary: noise h)
  case Nil
  have "h a = (h a)\<lparr> prior := prior (h a) \<rparr>" by simp
  then show ?case by (simp only: noise_blend.simps) blast
next
  case (Cons c cs)
  let ?h1 = "h(c := (h c)\<lparr> prior := (1 - eps) * prior (h c) + eps * (hd noise / s) \<rparr>)"
  from Cons [of "tl noise" ?h1] obtain p where
    p: "noise_blend eps s cs (tl noise) ?h1 a = (?h1 a)\<lparr> prior := p \<rparr>" by blast
  have "noise_blend eps s (c # cs) noise h a = (?h1 a)\<lparr> prior := p \<rparr>"
    using p by (simp add: Let_def)
  also have "\<dots> = (h a)\<lparr> prior := p \<rparr>" by simp
  finally show ?case by blast
qed

lemma addDirichletNoise_prior:
  assumes "addDirichletNoise cfg rnd h n = Inr h'"
  shows "\<exists>p. h' a = (h a)\<lparr> prior := p \<rparr>"
proof -
  have t: "\<exists>p. h a = (h a)\<lparr> prior := p \<rparr>"
    by (rule exI [of _ "prior (h a)"]) simp
  from assms show ?thesis
    using noise_blend_prior t
    by (auto simp: addDirichletNoise_def Let_def split: if_splits)
qed

lemma prior_carried:
  assumes "\<And>a. \<exists>p. h' a = (heap e a)\<lparr> prior := p \<rparr>"
  shows "carried_over e (e\<lparr> heap := h' \<rparr>)"
proof (rule carried_overI)
  fix a assume "a < nxt e"
  from assms [of a] obtain p where "h' a = (heap e a)\<lparr> prior := p \<rparr>" by blast
  then show "board (heap (e\<lparr> heap := h' \<rparr>) a) = board (heap e a) \<and>
        parent (heap (e\<lparr> heap := h' \<rparr>) a) = parent (heap e a) \<and>
        move (heap (e\<lparr> heap := h' \<rparr>) a) = move (heap e a) \<and>
        visitCount (heap e a) \<le> visitCount (heap (e\<lparr> heap := h' \<rparr>) a) \<and>
        (isExpanded (heap e a) \<longrightarrow>
           isExpanded (heap (e\<lparr> heap := h' \<rparr>) a) \<and> children (heap (e\<lparr> heap := h' \<rparr>) a) = children (heap e a)) \<and>
        (\<exists>new. children (heap (e\<lparr> heap := h' \<rparr>) a) = children (heap e a) @ new \<and> (\<forall>c \<in> set new. nxt e \<le> c))"
    by simp
qed simp_all

lemma noise_defined:
  assumes "rnd 0 \<noteq> 0"
  shows "\<exists>h'. addDirichletNoise cfg rnd h n = Inr h'"
proof (cases "children (h n) = []")
  case True
  then show ?thesis by (simp add: addDirichletNoise_def)
next
  case False
  let ?f = "\<lambda>i. rnd i powr (1 / dirichletAlpha cfg)"
  let ?k = "length (children (h n))"
  have k: "0 < ?k" using False by simp
  have u: "[0 ..< ?k] = 0 # [Suc 0 ..< ?k]" using k by (simp add: upt_rec)
  have b: "0 \<le> sum_list (map ?f [Suc 0 ..< ?k])" by (rule sum_list_nonneg) auto
  have a: "0 < ?f 0" using assms by simp
  have "0 < ?f 0 + sum_list (map ?f [Suc 0 ..< ?k])" by (rule add_pos_nonneg [OF a b])
  then have "0 < sum_list (map ?f [0 ..< ?k])" unfolding u by (simp only: list.map sum_list.Cons)
  then have "foldl (+) 0 (map ?f [0 ..< ?k]) \<noteq> 0" by (simp add: foldl_add_sum_list)
  then show ?thesis using False by (simp add: addDirichletNoise_def Let_def)
qed

lemma runSimulation_frame:
  assumes wf: "wf_tree e" and r: "root e = Some r" and rs: "runSimulation cfg env e = Some (Inr e')"
  shows "carried_over e e'" and "nodes e' = nodes e + 1"
    and "stopTime e' = stopTime e" and "stopSearch e' = stopSearch e"
proof -
  have rN: "r < nxt e" using wf_tree_rootD [OF wf r] by simp
  have W: "\<forall>m < nxt e. \<forall>c \<in> set (children (heap e m)). m < c \<and> c < nxt e \<and> parent (heap e c) = Some m"
    using wf unfolding wf_tree_def by blast
  from selectPath_total [OF W rN, of cfg "boards e"] obtain ps where ps:
    "ps \<noteq> []" "selectLeaf cfg (boards e) (heap e) r = Some (Some (hd ps))" "\<forall>a \<in> set ps. a < nxt e"
    by blast
  define leaf where "leaf = hd ps"
  have lN: "leaf < nxt e" using ps(1,3) by (simp add: leaf_def)
  define e1 where "e1 = e\<lparr> nodes := nodes e + 1 \<rparr>"
  define e2 where "e2 = expand env e1 leaf"
  have c1: "carried_over e e1" by (rule carried_over_fields) (simp_all add: e1_def)
  have f1: "nodes e1 = nodes e + 1" "stopTime e1 = stopTime e" "stopSearch e1 = stopSearch e"
    "nxt e1 = nxt e"
    by (simp_all add: e1_def)
  have c2: "carried_over e1 e2" unfolding e2_def by (rule expand_carried) (simp add: f1 lN)
  have f2: "nodes e2 = nodes e + 1" "stopTime e2 = stopTime e" "stopSearch e2 = stopSearch e"
    by (simp_all add: e2_def expand_fields f1)
  have RS: "runSimulation cfg env e =
     (if isTerminal (heap e1 leaf) then backpropagate_from e1 leaf (terminalValue (heap e1 leaf))
      else if minVisitsForExpansion cfg \<le> visitCount (heap e1 leaf) \<and> \<not> isExpanded (heap e1 leaf) then
        (if isTerminal (heap e2 leaf) then backpropagate_from e2 leaf (terminalValue (heap e2 leaf))
         else (let node' = (if children (heap e2 leaf) \<noteq> [] then hd (children (heap e2 leaf)) else leaf)
               in backpropagate_from e2 node' (evaluatePosition env (boards e2 (board (heap e2 node')))))) 
      else backpropagate_from e1 leaf (evaluatePosition env (boards e1 (board (heap e1 leaf)))))"
    using r ps(2) unfolding e2_def e1_def leaf_def by (simp add: runSimulation_def Let_def)
  have "\<exists>ex n v. backpropagate_from ex n v = Some (Inr e') \<and> (ex = e1 \<or> ex = e2)"
    using rs unfolding RS Let_def by (auto split: if_splits)
  then obtain ex n v where b: "backpropagate_from ex n v = Some (Inr e')" and ex: "ex = e1 \<or> ex = e2"
    by blast
  have cx: "carried_over e ex" using ex c1 carried_over_trans [OF c1 c2] by auto
  have fx: "nodes ex = nodes e + 1" "stopTime ex = stopTime e" "stopSearch ex = stopSearch e"
    using ex f1 f2 by auto
  note bb = backpropagate_from_carried [OF b]
  show "carried_over e e'" using carried_over_trans [OF cx bb(1)] .
  show "nodes e' = nodes e + 1" "stopTime e' = stopTime e" "stopSearch e' = stopSearch e"
    using bb(3-5) fx by simp_all
qed

lemma simulationPath_root:
  assumes wf: "wf_tree e" and r: "root e = Some r" and sp: "simulationPath cfg env e = Some p"
  shows "r \<in> set p"
proof -
  have rN: "r < nxt e" using wf_tree_rootD [OF wf r] by simp
  have W: "\<forall>m < nxt e. \<forall>c \<in> set (children (heap e m)). m < c \<and> c < nxt e \<and> parent (heap e c) = Some m"
    using wf unfolding wf_tree_def by blast
  from selectPath_total [OF W rN, of cfg "boards e"] obtain ps where ps:
    "selectPath cfg (boards e) (heap e) r = Some ps" "ps \<noteq> []" "last ps = r"
    by blast
  have "r \<in> set ps" using ps(2,3) last_in_set by blast
  moreover obtain leaf up where "ps = leaf # up" using ps(2) by (cases ps) auto
  ultimately show ?thesis
    using sp r ps(1) by (auto simp: simulationPath_def split: if_splits)
qed

lemma runSimulation_root_visit:
  assumes wf: "wf_tree e" and r: "root e = Some r"
  shows "\<exists>e'. runSimulation cfg env e = Some (Inr e') \<and> wf_tree e' \<and> root e' = Some r \<and>
           visitCount (heap e' r) = visitCount (heap e r) + 1"
proof -
  from runSimulation_step [OF wf r, of cfg env] obtain e' p where st:
    "runSimulation cfg env e = Some (Inr e')" "simulationPath cfg env e = Some p"
    "wf_tree e'" "root e' = root e" "nxt e \<le> nxt e'"
    "\<forall>a < nxt e'. visitCount (heap e' a)
        = (if a < nxt e then visitCount (heap e a) else 0) + (if a \<in> set p then 1 else 0)"
    by blast
  have rN: "r < nxt e" using wf_tree_rootD [OF wf r] by simp
  have rp: "r \<in> set p" by (rule simulationPath_root [OF wf r st(2)])
  have "visitCount (heap e' r) = visitCount (heap e r) + 1"
    using st(6) [rule_format, of r] rN st(5) rp by simp
  with st(1,3,4) r show ?thesis by simp
qed

lemma runSimulation_root_children:
  assumes wf: "wf_tree e" and r: "root e = Some r"
    and st: "isExpanded (heap e r) \<or> isTerminal (heap e r)"
    and rs: "runSimulation cfg env e = Some (Inr e')"
  shows "children (heap e' r) = children (heap e r)"
    and "isExpanded (heap e' r) \<or> isTerminal (heap e' r)"
proof -
  have rN: "r < nxt e" using wf_tree_rootD [OF wf r] by simp
  have "children (heap e' r) = children (heap e r) \<and> (isExpanded (heap e' r) \<or> isTerminal (heap e' r))"
  proof (cases "isExpanded (heap e r)")
    case True
    with carried_overD(4) [OF runSimulation_frame(1) [OF wf r rs] rN] show ?thesis by simp
  next
    case False
    with st have t: "isTerminal (heap e r)" by simp
    have sl: "selectLeaf cfg (boards e) (heap e) r = Some (Some r)"
      using False by (subst selectLeaf.simps) simp
    have "backpropagate_from (e\<lparr> nodes := nodes e + 1 \<rparr>) r (terminalValue (heap e r)) = Some (Inr e')"
      using rs r sl t by (simp add: runSimulation_def Let_def)
    then obtain h' where h': "backpropagate (heap e) r (terminalValue (heap e r)) = Some h'"
      "heap e' = h'"
      by (auto simp: backpropagate_from_def)
    from backpropagate_stats [OF h'(1), of r] obtain k w where
      "h' r = (heap e r)\<lparr> visitCount := visitCount (heap e r) + k, totalValue := w \<rparr>" by blast
    with h'(2) t show ?thesis by simp
  qed
  then show "children (heap e' r) = children (heap e r)"
    and "isExpanded (heap e' r) \<or> isTerminal (heap e' r)" by simp_all
qed

lemma simLoop_carried:
  assumes "wf_tree e" and "root e = Some r"
  shows "\<exists>e'. simLoop cfg env clock sims i e = Some (Inr e') \<and> wf_tree e' \<and> root e' = Some r \<and>
           carried_over e e' \<and>
           visitCount (heap e' r) + nodes e = visitCount (heap e r) + nodes e' \<and>
           (stopTime e = None \<and> \<not> stopSearch e \<longrightarrow> nodes e' = nodes e + (sims - i)) \<and>
           (isExpanded (heap e r) \<or> isTerminal (heap e r) \<longrightarrow>
              children (heap e' r) = children (heap e r))"
  using assms
proof (induction "sims - i" arbitrary: i e)
  case 0
  then have "simLoop cfg env clock sims i e = Some (Inr e)"
    by (subst simLoop.simps) simp
  with 0 show ?case by (simp add: carried_over_refl)
next
  case (Suc d)
  show ?case
  proof (cases "stopSearch e \<or> (case stopTime e of None \<Rightarrow> False | Some t \<Rightarrow> clock (Suc i) \<ge> t)")
    case True
    then have "simLoop cfg env clock sims i e = Some (Inr e)"
      by (subst simLoop.simps) simp
    moreover from True have "\<not> (stopTime e = None \<and> \<not> stopSearch e)" by (auto split: option.splits)
    ultimately show ?thesis using Suc.prems by (auto simp: carried_over_refl)
  next
    case False
    from runSimulation_root_visit [OF Suc.prems, of cfg env] obtain e1 where e1:
      "runSimulation cfg env e = Some (Inr e1)" "wf_tree e1" "root e1 = Some r"
      "visitCount (heap e1 r) = visitCount (heap e r) + 1"
      by blast
    note fr = runSimulation_frame [OF Suc.prems e1(1)]
    have d: "d = sims - Suc i" using Suc.hyps(2) by simp
    from Suc.hyps(1) [OF d e1(2,3)] obtain e' where e':
      "simLoop cfg env clock sims (Suc i) e1 = Some (Inr e')" "wf_tree e'" "root e' = Some r"
      "carried_over e1 e'" "visitCount (heap e' r) + nodes e1 = visitCount (heap e1 r) + nodes e'"
      "stopTime e1 = None \<and> \<not> stopSearch e1 \<longrightarrow> nodes e' = nodes e1 + (sims - Suc i)"
      "isExpanded (heap e1 r) \<or> isTerminal (heap e1 r) \<longrightarrow>
         children (heap e' r) = children (heap e1 r)"
      by blast
    have lt: "i < sims" using Suc.hyps(2) by simp
    have sl: "simLoop cfg env clock sims i e = Some (Inr e')"
      using False lt e1(1) e'(1) by (subst simLoop.simps) simp
    have co: "carried_over e e'" by (rule carried_over_trans [OF fr(1) e'(4)])
    have vc: "visitCount (heap e' r) + nodes e = visitCount (heap e r) + nodes e'"
      using e'(5) e1(4) fr(2) by simp
    have nd: "stopTime e = None \<and> \<not> stopSearch e \<longrightarrow> nodes e' = nodes e + (sims - i)"
      using e'(6) fr(2,3,4) lt by auto
    have ch: "isExpanded (heap e r) \<or> isTerminal (heap e r) \<longrightarrow>
                children (heap e' r) = children (heap e r)"
      using runSimulation_root_children [OF Suc.prems _ e1(1)] e'(7) by auto
    show ?thesis using sl e'(2,3) co vc nd ch by blast
  qed
qed

lemma simLoop_deadline:
  assumes "stopTime e = Some t" and "t \<le> clock (Suc i)"
  shows "simLoop cfg env clock sims i e = Some (Inr e)"
  using assms by (subst simLoop.simps) simp

lemma initRoot_wf:
  assumes "wf_tree e" and "initRoot e bref = (r, e1)"
  shows "wf_tree e1" and "root e1 = Some r" and "nxt e \<le> nxt e1"
    and "\<forall>a < nxt e. heap e1 a = heap e a"
    and "r = (if (root e \<noteq> None \<and> hash (boards e (board (heap e (the (root e))))) = hash (boards e bref))
              then the (root e) else nxt e)"
proof -
  let ?keep = "root e \<noteq> None \<and> hash (boards e (board (heap e (the (root e))))) = hash (boards e bref)"
  let ?f = "e\<lparr> heap := (heap e)(nxt e := MCTSNode bref None None 0),
                            nxt := nxt e + 1, root := Some (nxt e) \<rparr>"
  have wf': "wf_tree ?f"
  proof (rule wf_treeI)
    fix r0 assume "root ?f = Some r0"
    then show "r0 < nxt ?f \<and> parent (heap ?f r0) = None"
      by (auto simp: MCTSNode_def)
  next
    fix n c assume n: "n < nxt ?f" and c: "c \<in> set (children (heap ?f n))"
    have nn: "n \<noteq> nxt e" using c by (auto simp: MCTSNode_def)
    then have n': "n < nxt e" and c': "c \<in> set (children (heap e n))" using n c by auto
    from wf_treeD [OF assms(1) n' c']
    show "n < c \<and> c < nxt ?f \<and> parent (heap ?f c) = Some n" by auto
  qed
  have ir: "initRoot e bref = (if ?keep then (the (root e), e) else (nxt e, ?f))"
    by (auto simp: initRoot_def Let_def split: option.splits)
  have fs: "r = fst (initRoot e bref)" "e1 = snd (initRoot e bref)"
    using assms(2) by simp_all
  have K: "r = the (root e)" "e1 = e" if "?keep"
    unfolding fs ir by (simp_all only: if_P [OF that] fst_conv snd_conv)
  have F: "r = nxt e" "e1 = ?f" if "\<not> ?keep"
    unfolding fs ir by (simp_all only: if_not_P [OF that] fst_conv snd_conv)
  show "r = (if ?keep then the (root e) else nxt e)"
    using K(1) F(1) by (cases ?keep) simp_all
  show "wf_tree e1"
    using K(2) F(2) assms(1) wf' by (cases ?keep) simp_all
  show "root e1 = Some r"
  proof (cases ?keep)
    case True
    then have "root e \<noteq> None" by simp
    with K [OF True] show ?thesis by simp
  next
    case False
    from F [OF False] show ?thesis by simp
  qed
  show "nxt e \<le> nxt e1"
    using K(2) F(2) by (cases ?keep) simp_all
  show "\<forall>a < nxt e. heap e1 a = heap e a"
    using K(2) F(2) by (cases ?keep) simp_all
qed

lemma initRoot_cases:
  assumes "initRoot e bref = (r, e1)"
  shows "(root e \<noteq> None \<and> hash (boards e (board (heap e (the (root e))))) = hash (boards e bref)
           \<and> r = the (root e) \<and> e1 = e)
       \<or> (\<not> (root e \<noteq> None \<and> hash (boards e (board (heap e (the (root e))))) = hash (boards e bref))
           \<and> r = nxt e
           \<and> e1 = e\<lparr> heap := (heap e)(nxt e := MCTSNode bref None None 0),
                       nxt := nxt e + 1, root := Some (nxt e) \<rparr>)"
proof -
  let ?keep = "root e \<noteq> None \<and> hash (boards e (board (heap e (the (root e))))) = hash (boards e bref)"
  let ?f = "e\<lparr> heap := (heap e)(nxt e := MCTSNode bref None None 0),
                            nxt := nxt e + 1, root := Some (nxt e) \<rparr>"
  have ir: "initRoot e bref = (if ?keep then (the (root e), e) else (nxt e, ?f))"
    by (auto simp: initRoot_def Let_def split: option.splits)
  have fs: "r = fst (initRoot e bref)" "e1 = snd (initRoot e bref)"
    using assms by simp_all
  have K: "r = the (root e) \<and> e1 = e" if "?keep"
    unfolding fs ir by (simp only: if_P [OF that] fst_conv snd_conv)
  have F: "r = nxt e \<and> e1 = ?f" if "\<not> ?keep"
    unfolding fs ir by (simp only: if_not_P [OF that] fst_conv snd_conv)
  show ?thesis using K F by blast
qed

lemma initRoot_carried:
  assumes "initRoot e bref = (r, e1)"
  shows "carried_over e e1" and "nodes e1 = nodes e" and "stopTime e1 = stopTime e"
    and "stopSearch e1 = stopSearch e"
    and "visitCount (heap e1 r) =
           (if root e \<noteq> None \<and> hash (boards e (board (heap e (the (root e))))) = hash (boards e bref)
            then visitCount (heap e r) else 0)"
    and "\<not> (root e \<noteq> None \<and> hash (boards e (board (heap e (the (root e))))) = hash (boards e bref))
           \<Longrightarrow> board (heap e1 r) = bref \<and> move (heap e1 r) = None"
proof -
  let ?f = "e\<lparr> heap := (heap e)(nxt e := MCTSNode bref None None 0),
                            nxt := nxt e + 1, root := Some (nxt e) \<rparr>"
  have cf: "carried_over e ?f" by (rule carried_overI) simp_all
  from initRoot_cases [OF assms] cf carried_over_refl [of e]
  show "carried_over e e1" by auto
  from initRoot_cases [OF assms]
  show "nodes e1 = nodes e" "stopTime e1 = stopTime e" "stopSearch e1 = stopSearch e" by auto
  from initRoot_cases [OF assms]
  show "visitCount (heap e1 r) =
           (if root e \<noteq> None \<and> hash (boards e (board (heap e (the (root e))))) = hash (boards e bref)
            then visitCount (heap e r) else 0)"
    by (auto simp: MCTSNode_def)
  from initRoot_cases [OF assms]
  show "board (heap e1 r) = bref \<and> move (heap e1 r) = None"
    if "\<not> (root e \<noteq> None \<and> hash (boards e (board (heap e (the (root e))))) = hash (boards e bref))"
    using that by (auto simp: MCTSNode_def)
qed

lemma wf_tree_cong:
  assumes "root e' = root e" and "nxt e' = nxt e" and "heap e' = heap e"
  shows "wf_tree e' = wf_tree e"
  unfolding wf_tree_def assms ..

lemma search_result:
  assumes wf: "wf_tree e" and rnd0: "rnd 0 \<noteq> 0"
  shows "\<exists>m e' r. search cfg env clock rnd e bref sims tlim = Some (Inr (m, e')) \<and>
     wf_tree e' \<and> carried_over e e' \<and> root e' = Some r \<and>
     r = (if root e \<noteq> None \<and> hash (boards e (board (heap e (the (root e))))) = hash (boards e bref)
          then the (root e) else nxt e) \<and>
     visitCount (heap e' r) =
       (if root e \<noteq> None \<and> hash (boards e (board (heap e (the (root e))))) = hash (boards e bref)
        then visitCount (heap e r) else 0) + nodes e' \<and>
     (\<not> (root e \<noteq> None \<and> hash (boards e (board (heap e (the (root e))))) = hash (boards e bref))
        \<longrightarrow> board (heap e' r) = bref \<and> move (heap e' r) = None) \<and>
     m = getBestMove (heap e') r (temperature cfg) (rnd (length (children (heap e' r)))) \<and>
     (children (heap e' r) = [] \<longrightarrow> m = None \<and> nodes e' = 0) \<and>
     (children (heap e' r) \<noteq> [] \<and> tlim = None \<longrightarrow>
        nodes e' = (case (if length (filter (\<lambda>p. p \<noteq> EMPTY) (squares (boards e bref)))
                             < endgamePieceThreshold cfg
                          then Some (endgameSimulations cfg) else sims) of None \<Rightarrow> 0 | Some k \<Rightarrow> k)) \<and>
     (\<forall>t. tlim = Some t \<and> clock 0 + t \<le> clock (Suc 0) \<longrightarrow> nodes e' = 0)"
proof -
  define K where "K \<longleftrightarrow> root e \<noteq> None \<and> hash (boards e (board (heap e (the (root e))))) = hash (boards e bref)"
  let ?n = "case (if length (filter (\<lambda>p. p \<noteq> EMPTY) (squares (boards e bref)))
                             < endgamePieceThreshold cfg
                          then Some (endgameSimulations cfg) else sims) of None \<Rightarrow> 0 | Some k \<Rightarrow> k"
  define e0 where "e0 = e\<lparr> startTime := clock 0, stopTime := map_option (\<lambda>t. clock 0 + t) tlim,
                        stopSearch := False, nodes := 0 \<rparr>"
  have f0: "root e0 = root e" "nxt e0 = nxt e" "heap e0 = heap e" "boards e0 = boards e"
    "bnxt e0 = bnxt e" "nodes e0 = 0" "stopSearch e0 = False"
    "stopTime e0 = map_option (\<lambda>t. clock 0 + t) tlim"
    by (simp_all add: e0_def)
  have wf0: "wf_tree e0" using wf wf_tree_cong [OF f0(1-3)] by simp
  have c0: "carried_over e e0" by (rule carried_over_fields) (simp_all add: f0)
  obtain r e1 where i: "initRoot e0 bref = (r, e1)" by (cases "initRoot e0 bref")
  from initRoot_wf [OF wf0 i] have w1: "wf_tree e1" "root e1 = Some r" by simp_all
  note ic = initRoot_carried [OF i, unfolded f0, folded K_def]
  from initRoot_cases [OF i] have rr: "r = (if K then the (root e) else nxt e)"
    unfolding K_def by (auto simp: f0)
  have rN: "r < nxt e1" using wf_tree_rootD [OF w1] by simp
  define e2 where "e2 = expand env e1 r"
  have wf2: "wf_tree e2" unfolding e2_def by (rule expand_wf [OF w1(1) rN])
  have c2: "carried_over e1 e2" unfolding e2_def by (rule expand_carried [OF rN])
  have f2: "root e2 = Some r" "nodes e2 = 0" "stopSearch e2 = False"
    "stopTime e2 = map_option (\<lambda>t. clock 0 + t) tlim"
    using w1(2) ic(2-4) by (simp_all add: e2_def expand_fields)
  have v2: "visitCount (heap e2 r) = (if K then visitCount (heap e r) else 0)"
    using expand_old(2) [OF rN rN, of env] ic(5) by (simp add: e2_def)
  have c02: "carried_over e e2"
    by (rule carried_over_trans [OF carried_over_trans [OF c0 ic(1)] c2])
  have b2: "board (heap e2 r) = bref \<and> move (heap e2 r) = None" if "\<not> K"
    using carried_overD(4) [OF c2 rN] ic(6) [OF that] by simp
  have su: "search cfg env clock rnd e bref sims tlim =
     (if children (heap e2 r) = [] then Some (Inr (None, e2))
        else (case addDirichletNoise cfg rnd (heap e2) r of
                Inl err \<Rightarrow> Some (Inl err)
              | Inr h3 \<Rightarrow>
                 (case simLoop cfg env clock ?n 0 (e2\<lparr> heap := h3 \<rparr>) of
                    None \<Rightarrow> None
                  | Some (Inl err) \<Rightarrow> Some (Inl err)
                  | Some (Inr e4) \<Rightarrow>
                     Some (Inr (getBestMove (heap e4) r (temperature cfg)
                                  (rnd (length (children (heap e2 r)))), e4)))))"
    using search_unfold [where clock = clock and timeLimit = tlim, OF i [unfolded e0_def], of cfg env rnd sims]
    unfolding e2_def Let_def .
  have main: "\<exists>m e' r. search cfg env clock rnd e bref sims tlim = Some (Inr (m, e')) \<and>
     wf_tree e' \<and> carried_over e e' \<and> root e' = Some r \<and>
     r = (if K then the (root e) else nxt e) \<and>
     visitCount (heap e' r) = (if K then visitCount (heap e r) else 0) + nodes e' \<and>
     (\<not> K \<longrightarrow> board (heap e' r) = bref \<and> move (heap e' r) = None) \<and>
     m = getBestMove (heap e') r (temperature cfg) (rnd (length (children (heap e' r)))) \<and>
     (children (heap e' r) = [] \<longrightarrow> m = None \<and> nodes e' = 0) \<and>
     (children (heap e' r) \<noteq> [] \<and> tlim = None \<longrightarrow> nodes e' = ?n) \<and>
     (\<forall>t. tlim = Some t \<and> clock 0 + t \<le> clock (Suc 0) \<longrightarrow> nodes e' = 0)"
  proof (cases "children (heap e2 r) = []")
    case True
    then have "search cfg env clock rnd e bref sims tlim = Some (Inr (None, e2))"
      unfolding su by simp
    then show ?thesis using wf2 c02 f2(1,2) rr v2 b2 True
      by (intro exI [of _ None] exI [of _ e2] exI [of _ r]) (simp add: getBestMove_def)
  next
    case False
    from noise_defined [of rnd cfg "heap e2" r, OF rnd0] obtain h3 where
      h3: "addDirichletNoise cfg rnd (heap e2) r = Inr h3" by blast
    define e3 where "e3 = e2\<lparr> heap := h3 \<rparr>"
    have c3: "carried_over e2 e3"
      unfolding e3_def by (rule prior_carried) (rule addDirichletNoise_prior [OF h3])
    from addDirichletNoise_frame [OF h3]
    have fr: "\<forall>a. parent (h3 a) = parent (heap e2 a) \<and> children (h3 a) = children (heap e2 a)"
      and vc3: "visitCount (h3 r) = visitCount (heap e2 r)"
      by simp_all
    have wf3: "wf_tree e3" unfolding e3_def by (rule wf_tree_heap_update [OF wf2 fr])
    have f3: "root e3 = Some r" "nodes e3 = 0" "stopSearch e3 = False"
      "stopTime e3 = map_option (\<lambda>t. clock 0 + t) tlim" "heap e3 = h3"
      using f2 by (simp_all add: e3_def)
    from simLoop_carried [OF wf3 f3(1), of cfg env clock ?n 0] obtain e4 where e4:
      "simLoop cfg env clock ?n 0 e3 = Some (Inr e4)" "wf_tree e4" "root e4 = Some r"
      "carried_over e3 e4" "visitCount (heap e4 r) + nodes e3 = visitCount (heap e3 r) + nodes e4"
      "stopTime e3 = None \<and> \<not> stopSearch e3 \<longrightarrow> nodes e4 = nodes e3 + (?n - 0)"
      "isExpanded (heap e3 r) \<or> isTerminal (heap e3 r) \<longrightarrow>
         children (heap e4 r) = children (heap e3 r)"
      by blast
    have st2: "isExpanded (heap e2 r) \<or> isTerminal (heap e2 r)"
      unfolding e2_def by (simp add: expand_heap [OF rN])
    from addDirichletNoise_prior [OF h3, of r] obtain pr where
      "h3 r = (heap e2 r)\<lparr> prior := pr \<rparr>" by blast
    with st2 have st3: "isExpanded (heap e3 r) \<or> isTerminal (heap e3 r)"
      and ch3: "children (heap e3 r) = children (heap e2 r)"
      by (simp_all add: f3(5))
    have ch4: "children (heap e4 r) = children (heap e2 r)" using e4(7) st3 ch3 by simp
    have s: "search cfg env clock rnd e bref sims tlim =
          Some (Inr (getBestMove (heap e4) r (temperature cfg) (rnd (length (children (heap e2 r)))), e4))"
      unfolding su using False h3 e4(1) [unfolded e3_def] by simp
    have c04: "carried_over e e4"
      by (rule carried_over_trans [OF carried_over_trans [OF c02 c3] e4(4)])
    have c24: "carried_over e2 e4" by (rule carried_over_trans [OF c3 e4(4)])
    have r2: "r < nxt e2" using wf_tree_rootD [OF wf2 f2(1)] by simp
    note k = carried_overD(4) [OF c24 r2]
    have ch: "children (heap e4 r) \<noteq> []" using k False by auto
    have v4: "visitCount (heap e4 r) = (if K then visitCount (heap e r) else 0) + nodes e4"
      using e4(5) f3(2,5) vc3 v2 by simp
    have b4: "board (heap e4 r) = bref \<and> move (heap e4 r) = None" if "\<not> K"
      using k b2 [OF that] by simp
    have n4: "nodes e4 = ?n" if "tlim = None"
      using e4(6) f3(2,3,4) that by simp
    have d4: "nodes e4 = 0" if "tlim = Some t" "clock 0 + t \<le> clock (Suc 0)" for t
    proof -
      have "stopTime e3 = Some (clock 0 + t)" using f3(4) that(1) by simp
      from simLoop_deadline [of e3 "clock 0 + t" clock 0 cfg env ?n, OF this that(2)] e4(1)
      have "e4 = e3" by simp
      with f3(2) show ?thesis by simp
    qed
    show ?thesis
      unfolding s ch4 [symmetric] using e4(2,3) c04 rr v4 b4 ch n4 d4 by blast
  qed
  show ?thesis using main unfolding K_def .
qed

lemma subtree_kept:
  assumes wf: "wf_tree e" and co: "carried_over e e'" and r: "r < nxt e"
    and a: "a \<in> subtree (heap e) r"
  shows "a < nxt e \<and> a \<in> subtree (heap e') r"
  using a
proof (induction rule: subtree.induct)
  case top
  show ?case using r by (simp add: subtree.top)
next
  case (down n c)
  then have n: "n < nxt e" "n \<in> subtree (heap e') r" by simp_all
  from carried_overD(4) [OF co n(1)] obtain new where
    "children (heap e' n) = children (heap e n) @ new" by blast
  with down(2) have "c \<in> set (children (heap e' n))" by simp
  with n(2) have "c \<in> subtree (heap e') r" by (rule subtree.down)
  moreover have "c < nxt e" using wf_treeD(2) [OF wf n(1) down(2)] .
  ultimately show ?case by simp
qed

lemma subtree_above:
  assumes wf: "wf_tree e" and r: "r < nxt e" and a: "a \<in> subtree (heap e) r"
  shows "r \<le> a \<and> a < nxt e"
  using a
proof (induction rule: subtree.induct)
  case top
  show ?case using r by simp
next
  case (down n c)
  then have n: "r \<le> n" "n < nxt e" by simp_all
  from wf_treeD(1,2) [OF wf n(2) down(2)] n(1) show ?case by simp
qed

section \<open>The root of a new search\<close>

lemma phase_wf: "wf_tree phase_engine"
  by (simp add: wf_tree_def phase_engine_def phase_heap_def MCTSNode_def numeral_3_eq_3 less_Suc_eq)

lemma phase_child_board:
  "hash (phase_boards (Suc 0)) \<noteq> 0"
  "turn (phase_boards (Suc 0)) = - 1"
  "black (kings (phase_boards (Suc 0))) = 4"
  "length (filter (\<lambda>p. p \<noteq> EMPTY) (squares (phase_boards (Suc 0)))) = 12"
  by (simp_all add: phase_boards_def makeMove_def phase_board_def phase_squares_def plain_move_def
      Let_def sq_set_def sq_at_def getPieceType_def js_rem_def PIECES_defs test_keys_def)

text \<open>
  C4 (amended). Take a well-formed tree and a noise stream whose first sample is not 0, so
  that the noise sum is not 0. The search returns a result, and every node allocated
  before it is carried over: it keeps its board, parent and move, at least its visit
  count and its children in order, and the boards allocated before are unchanged.
  When the engine has a root and the hash stored in that root's board equals the hash of
  the board passed in, the root stays the root, every node of its subtree is still in its
  subtree, and its visit count is its count before the search plus the number of
  simulations of this search. In every other case, a board that matches a child of the
  previous root included, the root of the result is the node this search allocated first,
  for the board passed in, with no parent and no move; its visit count is the number of
  simulations of this search, and its subtree holds only nodes allocated by this search:
  no node of the previous tree is part of the new one.
\<close>

theorem search_root_kept_or_fresh:
  assumes "wf_tree e" and "rnd 0 \<noteq> 0"
  shows "\<exists>m e'. search cfg env clock rnd e bref sims tlim = Some (Inr (m, e')) \<and> carried_over e e' \<and>
     (if root e \<noteq> None \<and> hash (boards e (board (heap e (the (root e))))) = hash (boards e bref)
      then root e' = root e \<and>
           visitCount (heap e' (the (root e))) = visitCount (heap e (the (root e))) + nodes e' \<and>
           subtree (heap e) (the (root e)) \<subseteq> subtree (heap e') (the (root e))
      else root e' = Some (nxt e) \<and> nxt e < nxt e' \<and>
           board (heap e' (nxt e)) = bref \<and> parent (heap e' (nxt e)) = None \<and>
           move (heap e' (nxt e)) = None \<and> visitCount (heap e' (nxt e)) = nodes e' \<and>
           (\<forall>a \<in> subtree (heap e') (nxt e). nxt e \<le> a))"
proof -
  define K where "K \<longleftrightarrow> root e \<noteq> None \<and> hash (boards e (board (heap e (the (root e))))) = hash (boards e bref)"
  from search_result [of e rnd cfg env clock bref sims tlim, OF assms, folded K_def]
  obtain m e' r where s:
    "search cfg env clock rnd e bref sims tlim = Some (Inr (m, e'))"
    "wf_tree e'" "carried_over e e'" "root e' = Some r"
    "r = (if K then the (root e) else nxt e)"
    "visitCount (heap e' r) = (if K then visitCount (heap e r) else 0) + nodes e'"
    "\<not> K \<longrightarrow> board (heap e' r) = bref \<and> move (heap e' r) = None"
    by blast
  have "if K
      then root e' = root e \<and>
           visitCount (heap e' (the (root e))) = visitCount (heap e (the (root e))) + nodes e' \<and>
           subtree (heap e) (the (root e)) \<subseteq> subtree (heap e') (the (root e))
      else root e' = Some (nxt e) \<and> nxt e < nxt e' \<and>
           board (heap e' (nxt e)) = bref \<and> parent (heap e' (nxt e)) = None \<and>
           move (heap e' (nxt e)) = None \<and> visitCount (heap e' (nxt e)) = nodes e' \<and>
           (\<forall>a \<in> subtree (heap e') (nxt e). nxt e \<le> a)"
  proof (cases K)
    case True
    then have re: "root e = Some r" using s(5) by (auto simp: K_def)
    have rN: "r < nxt e" using wf_tree_rootD [OF assms(1) re] by simp
    have "subtree (heap e) r \<subseteq> subtree (heap e') r"
      using subtree_kept [OF assms(1) s(3) rN] by blast
    then show ?thesis using True s(4,6) re by simp
  next
    case False
    then have r: "r = nxt e" using s(5) by simp
    from wf_tree_rootD [OF s(2,4)] have lt: "r < nxt e'" and p: "parent (heap e' r) = None"
      by simp_all
    have "\<forall>a \<in> subtree (heap e') r. r \<le> a"
      using subtree_above [OF s(2) lt] by blast
    then show ?thesis using False s(4,6,7) lt p unfolding r by simp
  qed
  with s(1,3) show ?thesis unfolding K_def by blast
qed

theorem search_root_kept_or_fresh_witness:
  "wf_tree phase_again \<and> (1 / 2 :: real) \<noteq> 0 \<and>
   root phase_again = Some 0 \<and> board (heap phase_again 0) \<noteq> 3 \<and>
   hash (boards phase_again (board (heap phase_again 0))) = hash (boards phase_again 3) \<and>
   (\<exists>m e'. search MCTS_CONFIG march_env two_ticks (\<lambda>i. 1 / 2) phase_again 3 (Some 2) (Some 1000)
              = Some (Inr (m, e')) \<and> carried_over phase_again e' \<and>
      root e' = Some 0 \<and>
      visitCount (heap e' 0) = 4 + nodes e' \<and>
      subtree (heap phase_again) 0 \<subseteq> subtree (heap e') 0)"
proof -
  have w: "wf_tree phase_again"
    using phase_wf wf_tree_cong [of phase_again phase_engine] by (simp add: phase_again_def)
  have n: "(\<lambda>i :: nat. 1 / 2 :: real) 0 \<noteq> 0" by simp
  have f: "root phase_again = Some 0" "board (heap phase_again 0) = 0"
    "boards phase_again 0 = phase_board" "boards phase_again 3 = phase_board"
    "visitCount (heap phase_again 0) = 4"
    by (simp_all add: phase_again_def phase_engine_def phase_heap_def phase_boards_def MCTSNode_def)
  from search_root_kept_or_fresh [of phase_again "\<lambda>i. 1 / 2" MCTS_CONFIG march_env two_ticks 3 "Some 2" "Some 1000", OF w n]
  show ?thesis using w f by simp
qed

text \<open>
  C4 as stated fails. The tree \<open>phase_heap\<close> has a root with two children; the first
  child has been visited twice and stands for the position after a2-a3. A new search for
  that position, passed in a board with the same hash as the child's, does not promote the
  child: the root of the result is a new node at address 3, whose visit count is 0 after
  a search of no simulation, while the child at address 1 keeps its count of 2 outside
  the new tree.
\<close>

theorem search_child_not_promoted:
  "root phase_engine = Some 0 \<and> children (heap phase_engine 0) = [1, 2] \<and>
   hash (boards phase_engine (board (heap phase_engine 1))) = hash (boards phase_engine 3) \<and>
   visitCount (heap phase_engine 1) = 2 \<and>
   (\<exists>m e'. search MCTS_CONFIG march_env two_ticks (\<lambda>i. 1 / 2) phase_engine 3 (Some 0) None
              = Some (Inr (m, e')) \<and>
      root e' = Some 3 \<and> visitCount (heap e' 3) = 0 \<and> children (heap e' 3) = [4] \<and>
      visitCount (heap e' 1) = 2)"
proof -
  let ?e0 = "phase_engine\<lparr> startTime := two_ticks 0, stopTime := map_option (\<lambda>t. two_ticks 0 + t) None,
                        stopSearch := False, nodes := 0 \<rparr>"
  define e1 where "e1 = ?e0\<lparr> heap := (heap ?e0)(3 := MCTSNode 3 None None 0), nxt := 4, root := Some 3 \<rparr>"
  define e2 where "e2 = expand march_env e1 3"
  have a: "root phase_engine = Some 0" "children (heap phase_engine 0) = [1, 2]"
    "hash (boards phase_engine (board (heap phase_engine 1))) = hash (boards phase_engine 3)"
    "visitCount (heap phase_engine 1) = 2"
    by (simp_all add: phase_engine_def phase_heap_def MCTSNode_def)
  have b: "boards phase_engine 0 = phase_board" "boards phase_engine 3 = phase_boards (Suc 0)"
    "board (heap phase_engine 0) = 0" "nxt phase_engine = 3"
    by (simp_all add: phase_engine_def phase_boards_def phase_heap_def MCTSNode_def)
  have hne: "hash (boards phase_engine (board (heap phase_engine 0))) \<noteq> hash (boards phase_engine 3)"
    using phase_child_board(1) by (simp add: b phase_board_def)
  have i: "initRoot ?e0 3 = (3, e1)"
    by (simp add: initRoot_def Let_def a(1) hne b(4) e1_def)
  have n: "3 < nxt e1" by (simp add: e1_def)
  have g: "generate march_env (boards e1 (board (heap e1 3))) = [plain_move 4 12]"
    by (simp add: e1_def b MCTSNode_def march_env_def phase_child_board)
  have x: "\<not> isExpanded (heap e1 3)" "children (heap e1 3) = []" "nxt e1 = 4"
    "visitCount (heap e1 3) = 0" "visitCount (heap e1 1) = 2" "root e1 = Some 3"
    using a(4) by (simp_all add: e1_def MCTSNode_def)
  have c: "children (heap e2 3) = [4]"
    unfolding e2_def using expand_children [OF n, of march_env] x g by (simp add: expand_nxt)
  have v: "visitCount (heap e2 3) = 0" "visitCount (heap e2 1) = 2"
    unfolding e2_def
    using expand_old(2) [OF n, of 3 march_env] expand_old(2) [OF n, of 1 march_env] x by simp_all
  have r2: "root e2 = Some 3" by (simp add: e2_def expand_fields x)
  obtain h3 where h3: "addDirichletNoise MCTS_CONFIG (\<lambda>i. 1 / 2) (heap e2) 3 = Inr h3"
    by (simp add: addDirichletNoise_def c Let_def MCTS_CONFIG_def)
  note f = addDirichletNoise_frame [OF h3]
  have p: "length (filter (\<lambda>p. p \<noteq> EMPTY) (squares (boards phase_engine 3))) = 12"
    by (simp add: b phase_child_board)
  have s: "search MCTS_CONFIG march_env two_ticks (\<lambda>i. 1 / 2) phase_engine 3 (Some 0) None
      = Some (Inr (getBestMove h3 3 (temperature MCTS_CONFIG) (1 / 2), e2\<lparr> heap := h3 \<rparr>))"
    unfolding search_unfold [where clock = two_ticks and timeLimit = None, OF i] Let_def
      e2_def [symmetric]
    by (simp add: c h3 p simLoop_stop(1)
        MCTS_CONFIG_def [THEN arg_cong [of _ _ endgamePieceThreshold]])
  show ?thesis
    using a s r2 f(1) [of 3] f(1) [of 1] f(3) [of 3] v c by simp
qed

section \<open>A search without budget\<close>






end
